theory Spec2Isabelle
  imports Main "HOL-Library.Sublist"
begin

section \<open>Go strings and \<open>strings.Replace\<close>\<close>

text \<open>
  A Go string is a sequence of bytes, and so is an Isabelle \<open>string\<close>: \<open>length\<close> is Go's
  \<open>len\<close>, and \<open>take\<close>/\<open>drop\<close> cut at byte offsets.

  \<open>Replace s old new\<close> is \<open>strings.Replace(s, old, new, -1)\<close>: one scan from the left
  that replaces each match of \<open>old\<close> and continues behind it, so that matches never
  overlap. The program only passes non-empty patterns; for the empty pattern Go matches
  before every UTF-8 sequence and at the end, which on ASCII text is what the first branch
  computes.
\<close>

function Replace :: "string \<Rightarrow> string \<Rightarrow> string \<Rightarrow> string" where
  "Replace s old new =
     (if old = [] then new @ concat (map (\<lambda>c. c # new) s)
      else if s = [] then []
      else if prefix old s then new @ Replace (drop (length old) s) old new
      else hd s # Replace (tl s) old new)"
  by pat_completeness auto
termination
  by (relation "measure (\<lambda>(s, old, new). length s)") auto

declare Replace.simps [simp del]

section \<open>Paragraphs\<close>

type_synonym Paragraph = string

text \<open>\<open>Paragraph.Format\<close>: ten replacement passes, one after the other.\<close>

definition Format :: "Paragraph \<Rightarrow> Paragraph" where
  "Format p =
     (let s = p;
          s = Replace s ''<em>'' ''*'';
          s = Replace s ''</em>'' ''*'';
          s = Replace s ''<i>'' ''*'';
          s = Replace s ''</i>'' ''*'';
          s = Replace s ''<strong>'' ''**'';
          s = Replace s ''</strong>'' ''**'';
          s = Replace s ''<b>'' ''**'';
          s = Replace s ''</b>'' ''**'';
          s = Replace s [CHR 0x0A] '''';
          s = Replace s ''.  '' ''. ''
      in s)"

section \<open>Data model\<close>

record Chapter =
  Title :: string
  Url :: string
  Tags :: "string list"
  Paragraphs :: "Paragraph list"
  Retries :: int
  DatePosted :: string

record Arc =
  Identifier :: string
  Title :: string
  Chapters :: "Chapter list"

text \<open>The zero value \<open>Chapter{}\<close> of Go, on which the composite literals build.\<close>

definition Chapter_zero :: Chapter where
  "Chapter_zero =
     \<lparr>Chapter.Title = [], Url = [], Tags = [], Paragraphs = [], Retries = 0, DatePosted = []\<rparr>"

text \<open>
  Whatever stops the whole process: the run-time panics of slicing and indexing, and the
  explicit \<open>panic\<close> calls of the program with their message.
\<close>

datatype panic =
    SliceBounds
  | IndexRange
  | TimedOut string
  | OpenFailed string

section \<open>Which arc a chapter belongs to\<close>

text \<open>\<open>s[:n]\<close> panics when \<open>n\<close> is beyond the length of \<open>s\<close>.\<close>

definition slice_to :: "nat \<Rightarrow> 'a list \<Rightarrow> panic + 'a list" where
  "slice_to n s = (if n \<le> length s then Inr (take n s) else Inl SliceBounds)"

text \<open>
  \<open>WhichArc\<close> returns a pointer and an error value. The pointer is either an element of
  \<open>arcList\<close>, here its index, or a freshly allocated empty \<open>Arc\<close> that nothing else
  refers to. The prefix \<open>ch.Title[:2]\<close> is taken inside the loop body, once for every
  arc that is looked at.
\<close>

datatype arc_ref = ArcAt nat | FreshArc

fun WhichArc_from :: "nat \<Rightarrow> Chapter \<Rightarrow> Arc list \<Rightarrow> panic + (arc_ref \<times> string option)" where
  "WhichArc_from i ch [] =
     Inr (FreshArc,
       Some (''chapter '' @ [CHR 0x27] @ Chapter.Title ch @ [CHR 0x27] @ '' did not match any Arcs''))"
| "WhichArc_from i ch (arc # rest) =
     (case slice_to 2 (Chapter.Title ch) of
        Inl p \<Rightarrow> Inl p
      | Inr pre \<Rightarrow>
          if Replace pre ''.'' [] = Identifier arc then Inr (ArcAt i, None)
          else WhichArc_from (Suc i) ch rest)"

definition WhichArc :: "Chapter \<Rightarrow> Arc list \<Rightarrow> panic + (arc_ref \<times> string option)" where
  "WhichArc ch arcList = WhichArc_from 0 ch arcList"

section \<open>The table of contents: chapters into arcs\<close>

text \<open>
  An anchor of the contents page, as the selection hands it over: \<open>text_trimmed\<close> is
  \<open>strings.TrimSpace(s.Text())\<close> and \<open>href\<close> the value of \<open>s.Attr("href")\<close>.
\<close>

record Anchor =
  text_trimmed :: string
  href :: string

text \<open>\<open>arc.Chapters = append(arc.Chapters, ch)\<close> through the pointer that \<open>WhichArc\<close> gave.\<close>

fun append_chapter :: "arc_ref \<Rightarrow> Chapter \<Rightarrow> Arc list \<Rightarrow> Arc list" where
  "append_chapter (ArcAt i) ch arcs = arcs[i := (arcs ! i)\<lparr>Chapters := Chapters (arcs ! i) @ [ch]\<rparr>]"
| "append_chapter FreshArc ch arcs = arcs"

definition anchor_chapter :: "Anchor \<Rightarrow> Chapter" where
  "anchor_chapter a =
     Chapter_zero\<lparr>Chapter.Title := Replace (text_trimmed a) [CHR 0x0A] [], Url := href a\<rparr>"

definition anchor_step :: "Arc list \<Rightarrow> Anchor \<Rightarrow> panic + Arc list" where
  "anchor_step arcs a =
     (let ch = anchor_chapter a in
      if Chapter.Title ch = [] then Inr arcs
      else case WhichArc ch arcs of
             Inl p \<Rightarrow> Inl p
           | Inr (arc, _) \<Rightarrow> Inr (append_chapter arc ch arcs))"

fun classify_anchors :: "Arc list \<Rightarrow> Anchor list \<Rightarrow> panic + Arc list" where
  "classify_anchors arcs [] = Inr arcs"
| "classify_anchors arcs (a # as) =
     (case anchor_step arcs a of
        Inl p \<Rightarrow> Inl p
      | Inr arcs' \<Rightarrow> classify_anchors arcs' as)"

subsection \<open>The chapter that the contents page misses\<close>

definition missing_chapter :: Chapter where
  "missing_chapter =
     Chapter_zero\<lparr>Chapter.Title := ''E.2'',
       Url := ''https://parahumans.wordpress.com/2013/11/05/teneral-e-2/''\<rparr>"

text \<open>
  \<open>copy(xs[d:], xs[s:])\<close> on one backing array: both slice expressions panic beyond the
  length, and \<open>copy\<close> moves as many elements as the shorter of the two holds, as if
  through a buffer.
\<close>

definition copy_within :: "nat \<Rightarrow> nat \<Rightarrow> 'a list \<Rightarrow> panic + 'a list" where
  "copy_within d s xs =
     (if length xs < d \<or> length xs < s then Inl SliceBounds
      else let n = min (length xs - d) (length xs - s)
           in Inr (take d xs @ take n (drop s xs) @ drop (d + n) xs))"

text \<open>\<open>xs[i] = v\<close> panics at and beyond the length.\<close>

definition set_index :: "nat \<Rightarrow> 'a \<Rightarrow> 'a list \<Rightarrow> panic + 'a list" where
  "set_index i v xs = (if i < length xs then Inr (xs[i := v]) else Inl IndexRange)"

definition splice_at_1 :: "Chapter \<Rightarrow> Chapter list \<Rightarrow> panic + Chapter list" where
  "splice_at_1 c chapters =
     (case copy_within (1 + 1) 1 (chapters @ [c]) of
        Inl p \<Rightarrow> Inl p
      | Inr moved \<Rightarrow> set_index 1 c moved)"

definition insert_missing :: "Arc list \<Rightarrow> panic + Arc list" where
  "insert_missing arcs =
     (case WhichArc missing_chapter arcs of
        Inl p \<Rightarrow> Inl p
      | Inr (ArcAt i, _) \<Rightarrow>
          (case splice_at_1 missing_chapter (Chapters (arcs ! i)) of
             Inl p \<Rightarrow> Inl p
           | Inr cs \<Rightarrow> Inr (arcs[i := (arcs ! i)\<lparr>Chapters := cs\<rparr>]))
      | Inr (FreshArc, _) \<Rightarrow>
          (case splice_at_1 missing_chapter [] of
             Inl p \<Rightarrow> Inl p
           | Inr cs \<Rightarrow> Inr arcs))"

text \<open>
  The scan of the anchors and then the insertion, as the main flow runs them. The arcs
  are the ones that \<open>ParseArcs\<close> has read from the text of the contents page, one object
  per line that starts an arc or the epilogue; they are taken as given.
\<close>

definition classifier :: "Arc list \<Rightarrow> Anchor list \<Rightarrow> panic + Arc list" where
  "classifier arcs anchors =
     (case classify_anchors arcs anchors of
        Inl p \<Rightarrow> Inl p
      | Inr arcs' \<Rightarrow> insert_missing arcs')"

section \<open>Fetching and parsing one chapter\<close>

text \<open>
  What the selections of a fetched chapter page give: the text of \<open>h1.entry-title\<close>, the
  texts of the tag links, the text of \<open>time.entry-date\<close>, and the elements
  \<open>.entry-content > p\<close> in document order. Of such an element the program looks at
  \<open>len(s.Find("a").Nodes)\<close>, at \<open>s.Html()\<close> and at \<open>s.Attr\<close>, which returns the value of
  the first attribute of that name.
\<close>

record Element =
  link_nodes :: nat
  inner_html :: string
  attributes :: "(string \<times> string) list"

record Page =
  entry_title :: string
  tag_texts :: "string list"
  entry_date :: string
  entry_content :: "Element list"

definition paragraph_source :: "Element \<Rightarrow> Paragraph" where
  "paragraph_source s =
     (let st = inner_html s in
      if map_of (attributes s) ''padding-left'' = Some ''30px'' then ''    '' @ st
      else if map_of (attributes s) ''text-align'' = Some ''center'' then ''----------''
      else st)"

text \<open>The body of the loop over the content elements; \<open>ps\<close> is \<open>ch.Paragraphs\<close> so far.\<close>

definition content_step :: "Paragraph list \<Rightarrow> Element \<Rightarrow> Paragraph list" where
  "content_step ps s =
     (if 0 < link_nodes s then ps
      else ps @ [Format (paragraph_source s)])"

definition with_scheme :: "string \<Rightarrow> string" where
  "with_scheme url = (if \<not> prefix ''http'' url then ''https://'' @ url else url)"

text \<open>
  One call of \<open>Parse\<close> ends in one of three ways: it panics, which stops the process; it
  starts \<open>go ch.Parse(done)\<close> on the same chapter and returns, having sent nothing; or it
  sends once on \<open>done\<close>. In the last two the chapter record is left as given here.
  \<open>fetch\<close> is the network at the time of the call: \<open>None\<close> when
  \<open>goquery.NewDocument\<close> returns an error.
\<close>

datatype attempt =
    FatalAbort panic
  | Rescheduled Chapter
  | Completed Chapter

definition Parse :: "(string \<Rightarrow> Page option) \<Rightarrow> Chapter \<Rightarrow> attempt" where
  "Parse fetch ch =
     (if 3 < Retries ch then
        FatalAbort (TimedOut (''Chapter url '' @ [CHR 0x27] @ Url ch @ [CHR 0x27]
                                @ '' has timed out too many times''))
      else
        let ch = ch\<lparr>Url := with_scheme (Url ch)\<rparr> in
        case fetch (Url ch) of
          None \<Rightarrow> Rescheduled (ch\<lparr>Retries := Retries ch + 1\<rparr>)
        | Some doc \<Rightarrow>
            Completed (ch\<lparr>Chapter.Title := entry_title doc,
                          Tags := foldl (\<lambda>tags t. tags @ [t]) (Tags ch) (tag_texts doc),
                          DatePosted := entry_date doc,
                          Paragraphs := foldl content_step (Paragraphs ch) (entry_content doc)\<rparr>))"

text \<open>How many values a call sends on \<open>done\<close>.\<close>

fun sent :: "attempt \<Rightarrow> nat" where
  "sent (Completed ch) = 1"
| "sent (Rescheduled ch) = 0"
| "sent (FatalAbort p) = 0"

section \<open>All chapters at once\<close>

text \<open>
  The main flow starts one task per chapter, \<open>go arc.Chapters[i].Parse(done)\<close>, each on the
  address of its own element, and then counts the values received on \<open>done\<close>. A state of
  the run is the arcs, the slots of the tasks that are still alive, and the number of
  values received. The arcs are separate objects with separate chapter sequences, so a
  slot is a pair of indices.
\<close>

record Run =
  arcs :: "Arc list"
  tasks :: "(nat \<times> nat) list"
  received :: nat

definition slots_from :: "nat \<Rightarrow> Arc list \<Rightarrow> (nat \<times> nat) list" where
  "slots_from k as =
     concat (map (\<lambda>(i, arc). map (\<lambda>j. (i, j)) [0..<length (Chapters arc)]) (zip [k..<k + length as] as))"

definition launch :: "Arc list \<Rightarrow> Run" where
  "launch as = \<lparr>arcs = as, tasks = slots_from 0 as, received = 0\<rparr>"

definition chapter_at :: "Arc list \<Rightarrow> nat \<times> nat \<Rightarrow> Chapter" where
  "chapter_at as slot = Chapters (as ! fst slot) ! snd slot"

definition put_chapter :: "nat \<times> nat \<Rightarrow> Chapter \<Rightarrow> Arc list \<Rightarrow> Arc list" where
  "put_chapter slot ch as =
     as[fst slot := (as ! fst slot)\<lparr>Chapters := (Chapters (as ! fst slot))[snd slot := ch]\<rparr>]"

text \<open>
  One step of the run: the \<open>k\<close>-th live task makes one call of \<open>Parse\<close> against the
  network as it is then. A rescheduled task stays alive on its slot; a completed one is
  gone and its value is received. A \<open>k\<close> that names no live task changes nothing.
\<close>

definition attempt_step :: "Run \<Rightarrow> (string \<Rightarrow> Page option) \<times> nat \<Rightarrow> panic + Run" where
  "attempt_step r choice =
     (let fetch = fst choice; k = snd choice in
      if length (tasks r) \<le> k then Inr r
      else
        let slot = tasks r ! k in
        case Parse fetch (chapter_at (arcs r) slot) of
          FatalAbort p \<Rightarrow> Inl p
        | Rescheduled ch \<Rightarrow> Inr (r\<lparr>arcs := put_chapter slot ch (arcs r)\<rparr>)
        | Completed ch \<Rightarrow>
            Inr (r\<lparr>arcs := put_chapter slot ch (arcs r),
                   tasks := take k (tasks r) @ drop (Suc k) (tasks r),
                   received := received r + 1\<rparr>))"

fun run_schedule :: "Run \<Rightarrow> ((string \<Rightarrow> Page option) \<times> nat) list \<Rightarrow> panic + Run" where
  "run_schedule r [] = Inr r"
| "run_schedule r (c # cs) =
     (case attempt_step r c of
        Inl p \<Rightarrow> Inl p
      | Inr r' \<Rightarrow> run_schedule r' cs)"

text \<open>
  The calls that the task of one slot makes in the course of a schedule, as the answers
  of the network to them in order, and what these calls make of the chapter of the slot:
  a rescheduled call hands the chapter on to the next call, a completed call leaves it
  as it stays.
\<close>

fun replay :: "(string \<Rightarrow> Page option) list \<Rightarrow> Chapter \<Rightarrow> Chapter" where
  "replay [] ch = ch"
| "replay (fetch # rest) ch =
     (case Parse fetch ch of
        FatalAbort p \<Rightarrow> ch
      | Rescheduled ch' \<Rightarrow> replay rest ch'
      | Completed ch' \<Rightarrow> ch')"

fun attempts_on ::
  "Run \<Rightarrow> ((string \<Rightarrow> Page option) \<times> nat) list \<Rightarrow> nat \<times> nat \<Rightarrow> (string \<Rightarrow> Page option) list" where
  "attempts_on r [] slot = []"
| "attempts_on r (c # cs) slot =
     (case attempt_step r c of
        Inl p \<Rightarrow> []
      | Inr r' \<Rightarrow>
          (if snd c < length (tasks r) \<and> tasks r ! snd c = slot then [fst c] else [])
          @ attempts_on r' cs slot)"

text \<open>
  What fixes the order of the document: the arcs with their identifier and title, in
  sequence, and for each the addresses of its chapters, in sequence.
\<close>

definition outline :: "Arc list \<Rightarrow> (string \<times> string \<times> string list) list" where
  "outline as =
     map (\<lambda>arc. (Identifier arc, Arc.Title arc, map (\<lambda>ch. with_scheme (Url ch)) (Chapters arc))) as"

section \<open>Writing the document\<close>

record Flags =
  pdf :: bool
  with_link :: bool
  with_tags :: bool
  with_date :: bool

definition MainSite :: string where
  "MainSite = ''https://parahumans.wordpress.com/''"

fun Join :: "string list \<Rightarrow> string \<Rightarrow> string" where
  "Join [] sep = []"
| "Join [x] sep = x"
| "Join (x # y # rest) sep = x @ sep @ Join (y # rest) sep"

text \<open>
  \<open>f.WriteString\<close> appends to the file; \<open>f\<close> below is its content so far. \<open>PageBreak\<close> is
  two newlines while the document is written: the \<open>pdf\<close> flag changes it only afterwards.
\<close>

definition PageBreak :: string where
  "PageBreak = [CHR 0x0A, CHR 0x0A]"

definition write_chapter :: "Flags \<Rightarrow> string \<Rightarrow> Chapter \<Rightarrow> string" where
  "write_chapter flags f chapter =
     (let f = f @ [CHR 0x0A, CHR 0x0A];
          f = f @ (''## '' @ Chapter.Title chapter @ [CHR 0x0A, CHR 0x0A]);
          f = (if with_tags flags then f @ (''**Tags:** '' @ Join (Tags chapter) '', '' @ ''  '') else f);
          f = (if with_date flags then f @ (''**Date:** '' @ DatePosted chapter @ ''  '') else f);
          f = (if with_link flags then f @ (''**Link:** '' @ Url chapter @ ''  '') else f);
          f = f @ [CHR 0x0A, CHR 0x0A]
      in foldl (\<lambda>f p. f @ (p @ [CHR 0x0A, CHR 0x0A])) f (Paragraphs chapter))"

definition write_arc :: "Flags \<Rightarrow> string \<Rightarrow> Arc \<Rightarrow> string" where
  "write_arc flags f arc =
     foldl (write_chapter flags) (f @ (PageBreak @ Arc.Title arc)) (Chapters arc)"

definition write_document :: "Flags \<Rightarrow> Arc list \<Rightarrow> string" where
  "write_document flags as =
     (let f = [];
          f = f @ (''# Worm'' @ [CHR 0x0A, CHR 0x0A]);
          f = f @ (''By Wildbow'' @ [CHR 0x0A, CHR 0x0A]);
          f = f @ (''Website: '' @ MainSite)
      in foldl (write_arc flags) f as)"

text \<open>
  The files of the working directory, by name. \<open>os.OpenFile\<close> with
  \<open>O_RDWR|O_CREATE|O_EXCL\<close> creates the file empty, and fails when the name is taken; the
  program panics with that error. The result is the panic, if any, and the files as they
  are left.
\<close>

type_synonym files = "string \<rightharpoonup> string"

definition save_results :: "Flags \<Rightarrow> Arc list \<Rightarrow> files \<Rightarrow> panic option \<times> files" where
  "save_results flags as fs =
     (case fs ''Worm.md'' of
        Some existing \<Rightarrow> (Some (OpenFailed ''open Worm.md: file exists''), fs)
      | None \<Rightarrow> (None, fs(''Worm.md'' \<mapsto> write_document flags as)))"

section \<open>The formatter as it is described\<close>

text \<open>
  The description of the formatter, taken at its word, for comparison with \<open>Format\<close>:
  every tag of emphasis becomes one asterisk and every tag of bold two, in a single scan
  of the source that copies everything else; then every newline is dropped; then a period
  followed by two spaces becomes a period followed by one. \<open>spec_rewrite\<close> is that single
  scan for any list of rules: where a pattern of the list starts, its replacement is put
  and the scan goes on behind the pattern; elsewhere the character is copied.
\<close>

definition spec_markup_rules :: "(string \<times> string) list" where
  "spec_markup_rules =
     [(''<em>'', ''*''), (''</em>'', ''*''), (''<i>'', ''*''), (''</i>'', ''*''),
      (''<strong>'', ''**''), (''</strong>'', ''**''), (''<b>'', ''**''), (''</b>'', ''**'')]"

function spec_rewrite :: "(string \<times> string) list \<Rightarrow> string \<Rightarrow> string" where
  "spec_rewrite rules [] = []"
| "spec_rewrite rules (c # s) =
     (case find (\<lambda>(old, new). old \<noteq> [] \<and> prefix old (c # s)) rules of
        Some (old, new) \<Rightarrow> new @ spec_rewrite rules (drop (length old) (c # s))
      | None \<Rightarrow> c # spec_rewrite rules s)"
  by pat_completeness auto
termination
  by (relation "measure (\<lambda>(rules, s). length s)") (auto simp: find_Some_iff)

definition Format_spec :: "string \<Rightarrow> string" where
  "Format_spec s =
     spec_rewrite [(''.  '', ''. '')]
       (filter (\<lambda>c. c \<noteq> CHR 0x0A) (spec_rewrite spec_markup_rules s))"

section \<open>Properties\<close>

subsection \<open>Unfolding \<open>Replace\<close>\<close>

lemma Replace_Nil [simp]: "old \<noteq> [] \<Longrightarrow> Replace [] old new = []"
  by (simp add: Replace.simps)

lemma Replace_Cons:
  "old \<noteq> [] \<Longrightarrow>
   Replace (c # s) old new =
     (if prefix old (c # s) then new @ Replace (drop (length old) (c # s)) old new
      else c # Replace s old new)"
  by (subst Replace.simps) simp

subsection \<open>The retry bound\<close>

text \<open>
  Claim C1. A call of \<open>Parse\<close> panics exactly when the retry counter of its chapter is
  above 3 on entry. With a counter of at most 3 and a failed fetch, the call adds one to
  the counter, starts a new call on the same chapter and returns, sending nothing on
  \<open>done\<close>.
\<close>

theorem Parse_retry_bound:
  "((\<exists>p. Parse fetch ch = FatalAbort p) \<longleftrightarrow> 3 < Retries ch) \<and>
   (Retries ch \<le> 3 \<longrightarrow> fetch (with_scheme (Url ch)) = None \<longrightarrow>
      Parse fetch ch = Rescheduled (ch\<lparr>Url := with_scheme (Url ch), Retries := Retries ch + 1\<rparr>) \<and>
      sent (Parse fetch ch) = 0)"
  by (auto simp: Parse_def Let_def split: option.splits)

theorem Parse_retry_bound_witness:
  "Retries (Chapter_zero\<lparr>Url := ''a.b/c'', Retries := 3\<rparr>) \<le> 3 \<and>
   Parse (\<lambda>u. None) (Chapter_zero\<lparr>Url := ''a.b/c'', Retries := 3\<rparr>) =
     Rescheduled (Chapter_zero\<lparr>Url := ''https://a.b/c'', Retries := 4\<rparr>) \<and>
   sent (Parse (\<lambda>u. None) (Chapter_zero\<lparr>Url := ''a.b/c'', Retries := 3\<rparr>)) = 0 \<and>
   3 < Retries (Chapter_zero\<lparr>Url := ''a.b/c'', Retries := 4\<rparr>) \<and>
   Parse (\<lambda>u. None) (Chapter_zero\<lparr>Url := ''a.b/c'', Retries := 4\<rparr>) =
     FatalAbort (TimedOut (''Chapter url '' @ [CHR 0x27] @ ''a.b/c'' @ [CHR 0x27]
                             @ '' has timed out too many times''))"
  using Parse_retry_bound [of "\<lambda>u. None" "Chapter_zero\<lparr>Url := ''a.b/c'', Retries := 3\<rparr>"]
        Parse_retry_bound [of "\<lambda>u. None" "Chapter_zero\<lparr>Url := ''a.b/c'', Retries := 4\<rparr>"]
  by (simp add: Chapter_zero_def with_scheme_def Parse_def)

subsection \<open>Paragraphs with links\<close>

lemma foldl_content_step:
  "foldl content_step ps es =
     ps @ map (\<lambda>s. Format (paragraph_source s)) (filter (\<lambda>s. link_nodes s = 0) es)"
  by (induction es arbitrary: ps) (simp_all add: content_step_def)

text \<open>
  Claim C5. A content element that contains a link gives the chapter no paragraph: the
  call of \<open>Parse\<close> ends as it does on the same page without that element, wherever in
  the content the element stands.
\<close>

theorem linked_element_dropped:
  "0 < link_nodes e \<Longrightarrow>
   Parse (\<lambda>u. Some (doc\<lparr>entry_content := before @ e # after\<rparr>)) ch =
   Parse (\<lambda>u. Some (doc\<lparr>entry_content := before @ after\<rparr>)) ch"
proof -
  assume e: "0 < link_nodes e"
  have "foldl content_step ps (before @ e # after) = foldl content_step ps (before @ after)" for ps
    unfolding foldl_content_step using e by simp
  then show ?thesis
    by (simp add: Parse_def del: foldl_append foldl_Cons)
qed

theorem linked_element_dropped_witness:
  "0 < link_nodes \<lparr>link_nodes = 1, inner_html = ''<a>Next</a>'', attributes = []\<rparr> \<and>
   Parse (\<lambda>u. Some \<lparr>entry_title = ''T'', tag_texts = [], entry_date = ''d'',
       entry_content =
         [\<lparr>link_nodes = 0, inner_html = ''x'', attributes = []\<rparr>,
          \<lparr>link_nodes = 1, inner_html = ''<a>Next</a>'', attributes = []\<rparr>,
          \<lparr>link_nodes = 0, inner_html = ''y'', attributes = []\<rparr>]\<rparr>) Chapter_zero =
   Parse (\<lambda>u. Some \<lparr>entry_title = ''T'', tag_texts = [], entry_date = ''d'',
       entry_content =
         [\<lparr>link_nodes = 0, inner_html = ''x'', attributes = []\<rparr>,
          \<lparr>link_nodes = 0, inner_html = ''y'', attributes = []\<rparr>]\<rparr>) Chapter_zero"
  using linked_element_dropped
    [where e = "\<lparr>link_nodes = 1, inner_html = ''<a>Next</a>'', attributes = []\<rparr>"
       and doc = "\<lparr>entry_title = ''T'', tag_texts = [], entry_date = ''d'', entry_content = []\<rparr>"
       and before = "[\<lparr>link_nodes = 0, inner_html = ''x'', attributes = []\<rparr>]"
       and after = "[\<lparr>link_nodes = 0, inner_html = ''y'', attributes = []\<rparr>]"
       and ch = Chapter_zero]
  by simp

subsection \<open>The output file\<close>

text \<open>
  Claim C9. When a file of the name \<open>Worm.md\<close> is there already, saving panics with the
  error of \<open>os.OpenFile\<close>, and every file, that one included, is left as it was.
\<close>

theorem save_results_no_overwrite:
  "fs ''Worm.md'' = Some existing \<Longrightarrow>
   fst (save_results flags as fs) = Some (OpenFailed ''open Worm.md: file exists'') \<and>
   snd (save_results flags as fs) = fs"
  by (simp add: save_results_def)

theorem save_results_no_overwrite_witness:
  "(Map.empty(''Worm.md'' \<mapsto> ''old'')) ''Worm.md'' = Some ''old'' \<and>
   save_results \<lparr>pdf = False, with_link = False, with_tags = False, with_date = False\<rparr> []
     (Map.empty(''Worm.md'' \<mapsto> ''old'')) =
     (Some (OpenFailed ''open Worm.md: file exists''), Map.empty(''Worm.md'' \<mapsto> ''old''))"
  using save_results_no_overwrite [of "Map.empty(''Worm.md'' \<mapsto> ''old'')" "''old''"
     "\<lparr>pdf = False, with_link = False, with_tags = False, with_date = False\<rparr>" "[]"]
  by (simp add: prod_eq_iff)

subsection \<open>\<open>WhichArc\<close>\<close>

lemma WhichArc_from_short:
  "length (Chapter.Title ch) < 2 \<Longrightarrow> as \<noteq> [] \<Longrightarrow> WhichArc_from k ch as = Inl SliceBounds"
  by (cases as) (simp_all add: slice_to_def)

lemma WhichArc_from_panic:
  "WhichArc_from k ch as = Inl p \<Longrightarrow> p = SliceBounds"
  by (induction as arbitrary: k) (auto simp: slice_to_def split: if_splits)

lemma WhichArc_from_found:
  "2 \<le> length (Chapter.Title ch) \<Longrightarrow> i < length as \<Longrightarrow>
   Identifier (as ! i) = Replace (take 2 (Chapter.Title ch)) ''.'' [] \<Longrightarrow>
   (\<forall>j<i. Identifier (as ! j) \<noteq> Replace (take 2 (Chapter.Title ch)) ''.'' []) \<Longrightarrow>
   WhichArc_from k ch as = Inr (ArcAt (k + i), None)"
proof (induction as arbitrary: k i)
  case Nil
  then show ?case by simp
next
  case (Cons a as)
  show ?case
  proof (cases i)
    case 0
    with Cons.prems show ?thesis by (simp add: slice_to_def)
  next
    case (Suc i')
    from Cons.prems(4) Suc have a: "Identifier a \<noteq> Replace (take 2 (Chapter.Title ch)) ''.'' []"
      by auto
    have "WhichArc_from (Suc k) ch as = Inr (ArcAt (Suc k + i'), None)"
    proof (rule Cons.IH [OF Cons.prems(1)])
      show "i' < length as" using Cons.prems(2) Suc by simp
      show "Identifier (as ! i') = Replace (take 2 (Chapter.Title ch)) ''.'' []"
        using Cons.prems(3) Suc by simp
      show "\<forall>j<i'. Identifier (as ! j) \<noteq> Replace (take 2 (Chapter.Title ch)) ''.'' []"
        using Cons.prems(4) Suc by auto
    qed
    with a Cons.prems(1) Suc show ?thesis by (simp add: slice_to_def)
  qed
qed

lemma WhichArc_from_none:
  "2 \<le> length (Chapter.Title ch) \<Longrightarrow>
   (\<forall>a \<in> set as. Identifier a \<noteq> Replace (take 2 (Chapter.Title ch)) ''.'' []) \<Longrightarrow>
   WhichArc_from k ch as =
     Inr (FreshArc,
       Some (''chapter '' @ [CHR 0x27] @ Chapter.Title ch @ [CHR 0x27] @ '' did not match any Arcs''))"
  by (induction as arbitrary: k) (auto simp: slice_to_def)

subsection \<open>The inserted chapter\<close>

lemma splice_at_1_Cons: "splice_at_1 c (x # rest) = Inr (x # c # rest)"
  by (cases rest) (simp_all add: splice_at_1_def copy_within_def set_index_def)

lemma splice_at_1_Nil: "splice_at_1 c [] = Inl SliceBounds"
  by (simp add: splice_at_1_def copy_within_def)

lemma missing_prefix: "Replace (take 2 (Chapter.Title missing_chapter)) ''.'' [] = ''E''"
  by (simp add: missing_chapter_def Chapter_zero_def Replace_Cons)

text \<open>
  Claim C3, as the code has it. When the first arc with identifier \<open>E\<close> has at least one
  chapter, the missing chapter becomes the second chapter of that arc: the first chapter
  stays, the others move one place to the right, and the other arcs are as before.
\<close>

theorem insert_missing_index_1:
  assumes "i < length as" and "Identifier (as ! i) = ''E''"
    and "\<forall>j<i. Identifier (as ! j) \<noteq> ''E''"
    and "Chapters (as ! i) = first # rest"
  shows "insert_missing as = Inr (as[i := (as ! i)\<lparr>Chapters := first # missing_chapter # rest\<rparr>])"
proof -
  have "2 \<le> length (Chapter.Title missing_chapter)"
    by (simp add: missing_chapter_def Chapter_zero_def)
  then have "WhichArc_from 0 missing_chapter as = Inr (ArcAt (0 + i), None)"
    using assms(1-3) by (intro WhichArc_from_found) (simp_all add: missing_prefix)
  then show ?thesis
    using assms(4) by (simp add: insert_missing_def WhichArc_def splice_at_1_Cons)
qed


theorem insert_missing_index_1_witness:
  "(1::nat) < length [\<lparr>Identifier = ''30'', Title = ''Arc 30: Speck'', Chapters = []\<rparr>,
       \<lparr>Identifier = ''E'', Title = ''Epilogue'',
          Chapters = [Chapter_zero\<lparr>Chapter.Title := ''E.1''\<rparr>, Chapter_zero\<lparr>Chapter.Title := ''E.3''\<rparr>]\<rparr>] \<and>
   Identifier \<lparr>Identifier = ''30'', Title = ''Arc 30: Speck'', Chapters = []\<rparr> \<noteq> ''E'' \<and>
   insert_missing
     [\<lparr>Identifier = ''30'', Title = ''Arc 30: Speck'', Chapters = []\<rparr>,
      \<lparr>Identifier = ''E'', Title = ''Epilogue'',
         Chapters = [Chapter_zero\<lparr>Chapter.Title := ''E.1''\<rparr>, Chapter_zero\<lparr>Chapter.Title := ''E.3''\<rparr>]\<rparr>] =
   Inr [\<lparr>Identifier = ''30'', Title = ''Arc 30: Speck'', Chapters = []\<rparr>,
        \<lparr>Identifier = ''E'', Title = ''Epilogue'',
           Chapters = [Chapter_zero\<lparr>Chapter.Title := ''E.1''\<rparr>, missing_chapter,
                       Chapter_zero\<lparr>Chapter.Title := ''E.3''\<rparr>]\<rparr>]"
  using insert_missing_index_1
    [where i = 1
       and as = "[\<lparr>Identifier = ''30'', Title = ''Arc 30: Speck'', Chapters = []\<rparr>,
          \<lparr>Identifier = ''E'', Title = ''Epilogue'',
             Chapters = [Chapter_zero\<lparr>Chapter.Title := ''E.1''\<rparr>, Chapter_zero\<lparr>Chapter.Title := ''E.3''\<rparr>]\<rparr>]"
       and first = "Chapter_zero\<lparr>Chapter.Title := ''E.1''\<rparr>"
       and rest = "[Chapter_zero\<lparr>Chapter.Title := ''E.3''\<rparr>]"]
  by simp

text \<open>
  With no chapter in the epilogue arc the slice expression \<open>a.Chapters[1+1:]\<close> is out of
  range, and the insertion panics instead.
\<close>

theorem insert_missing_empty_epilogue:
  "insert_missing [\<lparr>Identifier = ''E'', Title = ''Epilogue'', Chapters = []\<rparr>] = Inl SliceBounds"
  by (simp add: insert_missing_def WhichArc_def missing_chapter_def Chapter_zero_def slice_to_def
      Replace_Cons splice_at_1_Nil)

subsection \<open>Titles shorter than the prefix\<close>

lemma anchor_step_panic: "anchor_step as a = Inl p \<Longrightarrow> p = SliceBounds"
  by (auto simp: anchor_step_def Let_def WhichArc_def split: if_splits sum.splits dest: WhichArc_from_panic)

lemma length_append_chapter [simp]: "length (append_chapter r ch as) = length as"
  by (cases r) simp_all

lemma anchor_step_length: "anchor_step as a = Inr as' \<Longrightarrow> length as' = length as"
  by (auto simp: anchor_step_def Let_def split: if_splits sum.splits)

lemma classify_anchors_panic: "classify_anchors as anchors = Inl p \<Longrightarrow> p = SliceBounds"
  by (induction anchors arbitrary: as) (auto split: sum.splits dest: anchor_step_panic)

lemma classify_anchors_short:
  "as \<noteq> [] \<Longrightarrow> a \<in> set anchors \<Longrightarrow> length (Chapter.Title (anchor_chapter a)) = 1 \<Longrightarrow>
   classify_anchors as anchors = Inl SliceBounds"
proof (induction anchors arbitrary: as)
  case Nil
  then show ?case by simp
next
  case (Cons b bs)
  show ?case
  proof (cases "anchor_step as b")
    case (Inl p)
    then show ?thesis using anchor_step_panic [OF Inl] by simp
  next
    case (Inr as')
    then have ne: "as' \<noteq> []" using anchor_step_length [OF Inr] Cons.prems(1) by auto
    have "a \<noteq> b"
    proof
      assume "a = b"
      then have "anchor_step as b = Inl SliceBounds"
        using Cons.prems(1,3)
        by (auto simp: anchor_step_def Let_def WhichArc_def WhichArc_from_short)
      with Inr show False by simp
    qed
    then have "a \<in> set bs" using Cons.prems(2) by simp
    then show ?thesis using Inr Cons.IH [OF ne _ Cons.prems(3)] by simp
  qed
qed

text \<open>
  Claim C10, as the code has it. With at least one arc, \<open>WhichArc\<close> panics on every
  chapter whose title is shorter than two bytes, where a no-match error would be
  expected; the loop over the anchors skips an anchor only when its title is empty, so an
  anchor with a title of one byte makes the run panic while it builds the skeleton.
\<close>

theorem short_title_panics:
  "as \<noteq> [] \<Longrightarrow>
   (length (Chapter.Title ch) < 2 \<longrightarrow> WhichArc ch as = Inl SliceBounds) \<and>
   (Chapter.Title (anchor_chapter a) = [] \<longrightarrow> anchor_step as a = Inr as) \<and>
   (length (Chapter.Title (anchor_chapter a)) = 1 \<longrightarrow> a \<in> set anchors \<longrightarrow>
      classifier as anchors = Inl SliceBounds)"
  by (simp add: WhichArc_def WhichArc_from_short classify_anchors_short anchor_step_def
      classifier_def)

theorem short_title_panics_witness:
  "[\<lparr>Identifier = ''1'', Title = ''Arc 1'', Chapters = []\<rparr>] \<noteq> [] \<and>
   length (Chapter.Title (Chapter_zero\<lparr>Chapter.Title := ''7''\<rparr>)) < 2 \<and>
   WhichArc (Chapter_zero\<lparr>Chapter.Title := ''7''\<rparr>)
     [\<lparr>Identifier = ''1'', Title = ''Arc 1'', Chapters = []\<rparr>] = Inl SliceBounds \<and>
   Chapter.Title (anchor_chapter \<lparr>text_trimmed = [], href = ''u0''\<rparr>) = [] \<and>
   anchor_step [\<lparr>Identifier = ''1'', Title = ''Arc 1'', Chapters = []\<rparr>]
     \<lparr>text_trimmed = [], href = ''u0''\<rparr> = Inr [\<lparr>Identifier = ''1'', Title = ''Arc 1'', Chapters = []\<rparr>] \<and>
   length (Chapter.Title (anchor_chapter \<lparr>text_trimmed = ''7'', href = ''u7''\<rparr>)) = 1 \<and>
   \<lparr>text_trimmed = ''7'', href = ''u7''\<rparr> \<in>
     set [\<lparr>text_trimmed = ''1.1'', href = ''u1''\<rparr>, \<lparr>text_trimmed = ''7'', href = ''u7''\<rparr>] \<and>
   classifier [\<lparr>Identifier = ''1'', Title = ''Arc 1'', Chapters = []\<rparr>]
     [\<lparr>text_trimmed = ''1.1'', href = ''u1''\<rparr>, \<lparr>text_trimmed = ''7'', href = ''u7''\<rparr>] = Inl SliceBounds"
  using short_title_panics
    [where as = "[\<lparr>Identifier = ''1'', Title = ''Arc 1'', Chapters = []\<rparr>]"
       and ch = "Chapter_zero\<lparr>Chapter.Title := ''7''\<rparr>"
       and a = "\<lparr>text_trimmed = [], href = ''u0''\<rparr>"
       and anchors = "[]"]
    short_title_panics
    [where as = "[\<lparr>Identifier = ''1'', Title = ''Arc 1'', Chapters = []\<rparr>]"
       and ch = "Chapter_zero\<lparr>Chapter.Title := ''7''\<rparr>"
       and a = "\<lparr>text_trimmed = ''7'', href = ''u7''\<rparr>"
       and anchors = "[\<lparr>text_trimmed = ''1.1'', href = ''u1''\<rparr>, \<lparr>text_trimmed = ''7'', href = ''u7''\<rparr>]"]
  by (simp add: Chapter_zero_def anchor_chapter_def Replace_Cons)

text \<open>
  With no arc at all the loop body of \<open>WhichArc\<close> never runs, the prefix is not taken, and
  a title of one byte gets the no-match error.
\<close>

theorem WhichArc_no_arcs:
  "WhichArc (Chapter_zero\<lparr>Chapter.Title := ''1''\<rparr>) [] =
     Inr (FreshArc, Some (''chapter '' @ [CHR 0x27] @ ''1'' @ [CHR 0x27] @ '' did not match any Arcs''))"
  by (simp add: WhichArc_def Chapter_zero_def)

subsection \<open>Chapters into arcs\<close>

lemma anchor_step_matched:
  assumes "2 \<le> length (Chapter.Title (anchor_chapter a))" and "i < length as"
    and "Identifier (as ! i) = Replace (take 2 (Chapter.Title (anchor_chapter a))) ''.'' []"
    and "\<forall>j<i. Identifier (as ! j) \<noteq> Replace (take 2 (Chapter.Title (anchor_chapter a))) ''.'' []"
  shows "anchor_step as a =
           Inr (as[i := (as ! i)\<lparr>Chapters := Chapters (as ! i) @ [anchor_chapter a]\<rparr>])"
proof -
  have "WhichArc_from 0 (anchor_chapter a) as = Inr (ArcAt (0 + i), None)"
    using assms by (intro WhichArc_from_found) simp_all
  moreover have "Chapter.Title (anchor_chapter a) \<noteq> []"
    using assms(1) by auto
  ultimately show ?thesis
    by (simp add: anchor_step_def WhichArc_def)
qed

lemma anchor_step_unmatched:
  assumes "2 \<le> length (Chapter.Title (anchor_chapter a))"
    and "\<forall>arc \<in> set as. Identifier arc \<noteq> Replace (take 2 (Chapter.Title (anchor_chapter a))) ''.'' []"
  shows "anchor_step as a = Inr as"
    and "WhichArc (anchor_chapter a) as =
           Inr (FreshArc, Some (''chapter '' @ [CHR 0x27] @ Chapter.Title (anchor_chapter a)
                                  @ [CHR 0x27] @ '' did not match any Arcs''))"
proof -
  show w: "WhichArc (anchor_chapter a) as =
           Inr (FreshArc, Some (''chapter '' @ [CHR 0x27] @ Chapter.Title (anchor_chapter a)
                                  @ [CHR 0x27] @ '' did not match any Arcs''))"
    unfolding WhichArc_def using assms by (rule WhichArc_from_none)
  show "anchor_step as a = Inr as"
    by (simp add: anchor_step_def w Let_def)
qed

text \<open>
  Claim C4 at an anchor whose text is one byte long: the title is not empty, the arc
  \<open>1\<close> is there, and the classification panics, where the claim has the chapter either
  appended to an arc or dropped with an error. For titles of two bytes and more the two
  lemmas above give what the claim says.
\<close>

theorem one_byte_title_crashes:
  "classify_anchors [\<lparr>Identifier = ''1'', Title = ''Arc 1: Gestation'', Chapters = []\<rparr>]
     [\<lparr>text_trimmed = ''1'', href = ''https://parahumans.wordpress.com/page/1/''\<rparr>] = Inl SliceBounds"
  by (simp add: anchor_step_def anchor_chapter_def Chapter_zero_def WhichArc_def slice_to_def Replace_Cons)

subsection \<open>The document follows the arcs\<close>

lemma foldl_append_acc: "foldl (\<lambda>f x. f @ g x) f xs = f @ concat (map g xs)"
  by (induction xs arbitrary: f) simp_all

lemma write_chapter_append: "write_chapter flags f chapter = f @ write_chapter flags [] chapter"
  by (simp add: write_chapter_def Let_def foldl_append_acc)

lemma foldl_write_chapter:
  "foldl (write_chapter flags) f chapters = f @ concat (map (write_chapter flags []) chapters)"
proof (induction chapters arbitrary: f)
  case Nil
  then show ?case by simp
next
  case (Cons c cs)
  show ?case
    by (simp add: Cons.IH [of "write_chapter flags f c"]) (subst write_chapter_append, simp)
qed

lemma write_arc_append: "write_arc flags f arc = f @ write_arc flags [] arc"
  by (simp add: write_arc_def foldl_write_chapter)

lemma foldl_write_arc:
  "foldl (write_arc flags) f as = f @ concat (map (write_arc flags []) as)"
proof (induction as arbitrary: f)
  case Nil
  then show ?case by simp
next
  case (Cons a as)
  show ?case
    by (simp add: Cons.IH [of "write_arc flags f a"]) (subst write_arc_append, simp)
qed

lemma write_document_sections:
  "write_document flags as =
     write_document flags [] @
     concat (map (\<lambda>arc. PageBreak @ Arc.Title arc @ concat (map (write_chapter flags []) (Chapters arc))) as)"
proof -
  have "write_arc flags [] =
          (\<lambda>arc. PageBreak @ Arc.Title arc @ concat (map (write_chapter flags []) (Chapters arc)))"
    by (rule ext) (simp add: write_arc_def foldl_write_chapter)
  then show ?thesis
    by (simp add: write_document_def Let_def foldl_write_arc)
qed

subsection \<open>The order of completion\<close>

lemma with_scheme_idem [simp]: "with_scheme (with_scheme u) = with_scheme u"
  by (simp add: with_scheme_def)

lemma Parse_keeps_address:
  "Parse fetch ch = Rescheduled ch' \<or> Parse fetch ch = Completed ch' \<Longrightarrow>
   with_scheme (Url ch') = with_scheme (Url ch)"
  by (auto simp: Parse_def Let_def split: if_splits option.splits)

lemma outline_put_chapter:
  assumes "with_scheme (Url ch) = with_scheme (Url (chapter_at as slot))"
  shows "outline (put_chapter slot ch as) = outline as"
proof -
  obtain i j where slot: "slot = (i, j)" by (cases slot)
  let ?g = "\<lambda>ch. with_scheme (Url ch)"
  let ?f = "\<lambda>arc. (Identifier arc, Arc.Title arc, map ?g (Chapters arc))"
  let ?cs = "Chapters (as ! i)"
  have "map ?g (?cs[j := ch]) = (map ?g ?cs)[j := ?g ch]"
    by (rule map_update)
  also have "\<dots> = (map ?g ?cs)[j := ?g (?cs ! j)]"
    using assms by (simp add: slot chapter_at_def)
  also have "\<dots> = map ?g (?cs[j := ?cs ! j])"
    by (rule map_update [symmetric])
  also have "\<dots> = map ?g ?cs"
    by (simp only: list_update_id)
  finally have "?f ((as ! i)\<lparr>Chapters := ?cs[j := ch]\<rparr>) = ?f (as ! i)"
    by simp
  then have "map ?f (as[i := (as ! i)\<lparr>Chapters := ?cs[j := ch]\<rparr>]) = map ?f (as[i := as ! i])"
    by (simp only: map_update)
  then show ?thesis
    by (simp add: outline_def put_chapter_def slot)
qed

lemma outline_after_Parse:
  "Parse fetch (chapter_at as slot) = Rescheduled ch \<Longrightarrow> outline (put_chapter slot ch as) = outline as"
  "Parse fetch (chapter_at as slot) = Completed ch \<Longrightarrow> outline (put_chapter slot ch as) = outline as"
  by (auto intro!: outline_put_chapter Parse_keeps_address)

lemma attempt_step_invariant:
  assumes "attempt_step r c = Inr r'"
  shows "outline (arcs r') = outline (arcs r)"
    and "received r' + length (tasks r') = received r + length (tasks r)"
    and "set (tasks r') \<subseteq> set (tasks r)"
proof -
  obtain fetch k where c: "c = (fetch, k)" by (cases c)
  show "outline (arcs r') = outline (arcs r)"
    using assms
    by (auto simp: attempt_step_def c Let_def outline_after_Parse
        split: if_splits attempt.splits)
  show "received r' + length (tasks r') = received r + length (tasks r)"
    using assms
    by (auto simp: attempt_step_def c Let_def split: if_splits attempt.splits)
  show "set (tasks r') \<subseteq> set (tasks r)"
    using assms
    by (auto simp: attempt_step_def c Let_def split: if_splits attempt.splits
        dest: in_set_takeD in_set_dropD)
qed

lemma run_schedule_invariant:
  "run_schedule r schedule = Inr r' \<Longrightarrow>
   outline (arcs r') = outline (arcs r) \<and>
   received r' + length (tasks r') = received r + length (tasks r) \<and>
   set (tasks r') \<subseteq> set (tasks r)"
proof (induction schedule arbitrary: r)
  case Nil
  then show ?case by simp
next
  case (Cons c cs)
  then obtain r1 where s: "attempt_step r c = Inr r1" and rest: "run_schedule r1 cs = Inr r'"
    by (auto split: sum.splits)
  from attempt_step_invariant [OF s] Cons.IH [OF rest] show ?case
    by auto
qed

lemma length_slots_from:
  "length (slots_from k as) = sum_list (map (\<lambda>arc. length (Chapters arc)) as)"
proof (induction as arbitrary: k)
  case Nil
  then show ?case by (simp add: slots_from_def)
next
  case (Cons a as)
  have "[k..<k + length (a # as)] = k # [Suc k..<Suc k + length as]"
    by (simp add: upt_rec)
  then show ?case
    using Cons.IH [of "Suc k"] by (simp add: slots_from_def)
qed

lemma slots_from_Cons:
  "slots_from k (a # as) = map (\<lambda>j. (k, j)) [0..<length (Chapters a)] @ slots_from (Suc k) as"
proof -
  have "[k..<k + length (a # as)] = k # [Suc k..<Suc k + length as]"
    by (simp add: upt_rec)
  then show ?thesis
    unfolding slots_from_def by (simp del: upt_Suc)
qed

lemma slots_from_in_range:
  "(i, j) \<in> set (slots_from k as) \<Longrightarrow>
   k \<le> i \<and> i < k + length as \<and> j < length (Chapters (as ! (i - k)))"
proof (induction as arbitrary: k)
  case Nil
  then show ?case by (simp add: slots_from_def)
next
  case (Cons a as)
  from Cons.prems have "(i = k \<and> j < length (Chapters a)) \<or> (i, j) \<in> set (slots_from (Suc k) as)"
    unfolding slots_from_Cons by auto
  then show ?case
  proof
    assume "i = k \<and> j < length (Chapters a)"
    then show ?thesis by simp
  next
    assume "(i, j) \<in> set (slots_from (Suc k) as)"
    from Cons.IH [OF this] have "Suc k \<le> i" "i < Suc k + length as"
      "j < length (Chapters (as ! (i - Suc k)))"
      by simp_all
    moreover from this have "(a # as) ! (i - k) = as ! (i - Suc k)"
      by (simp add: nth_Cons')
    ultimately show ?thesis by simp
  qed
qed

lemma outline_lengths:
  assumes "outline as = outline bs"
  shows "length as = length bs"
    and "i < length bs \<Longrightarrow> length (Chapters (as ! i)) = length (Chapters (bs ! i))"
proof -
  show l: "length as = length bs"
    using assms unfolding outline_def by (rule map_eq_imp_length_eq)
  assume i: "i < length bs"
  have "outline as ! i = outline bs ! i"
    using assms by simp
  then have "map (\<lambda>ch. with_scheme (Url ch)) (Chapters (as ! i)) =
             map (\<lambda>ch. with_scheme (Url ch)) (Chapters (bs ! i))"
    using i l by (simp add: outline_def)
  then show "length (Chapters (as ! i)) = length (Chapters (bs ! i))"
    by (rule map_eq_imp_length_eq)
qed

lemma live_tasks_in_range:
  assumes "run_schedule (launch skeleton) schedule = Inr r"
  shows "\<forall>(i, j) \<in> set (tasks r). i < length (arcs r) \<and> j < length (Chapters (arcs r ! i))"
proof (clarify)
  fix i j
  assume "(i, j) \<in> set (tasks r)"
  moreover from run_schedule_invariant [OF assms]
  have o: "outline (arcs r) = outline skeleton" and "set (tasks r) \<subseteq> set (slots_from 0 skeleton)"
    by (simp_all add: launch_def)
  ultimately have "(i, j) \<in> set (slots_from 0 skeleton)" by blast
  from slots_from_in_range [OF this]
  have "i < length skeleton" and "j < length (Chapters (skeleton ! i))" by simp_all
  with outline_lengths [OF o] show "i < length (arcs r) \<and> j < length (Chapters (arcs r ! i))"
    by simp
qed

lemma chapter_at_put_same:
  "fst slot < length as \<Longrightarrow> snd slot < length (Chapters (as ! fst slot)) \<Longrightarrow>
   chapter_at (put_chapter slot ch as) slot = ch"
  by (simp add: chapter_at_def put_chapter_def)

lemma chapter_at_put_other:
  "slot' \<noteq> slot \<Longrightarrow> chapter_at (put_chapter slot ch as) slot' = chapter_at as slot'"
proof -
  assume ne: "slot' \<noteq> slot"
  obtain i j where s: "slot = (i, j)" by (cases slot)
  obtain i' j' where s': "slot' = (i', j')" by (cases slot')
  show ?thesis
  proof (cases "i' = i")
    case False
    then show ?thesis by (simp add: chapter_at_def put_chapter_def s s')
  next
    case True
    with ne s s' have j: "j' \<noteq> j" by simp
    show ?thesis
    proof (cases "i < length as")
      case True
      with \<open>i' = i\<close> j show ?thesis by (simp add: chapter_at_def put_chapter_def s s')
    next
      case False
      then show ?thesis by (simp add: chapter_at_def put_chapter_def s s' list_update_beyond)
    qed
  qed
qed

lemma length_put_chapter [simp]: "length (put_chapter slot ch as) = length as"
  by (simp add: put_chapter_def)

lemma length_Chapters_put_chapter [simp]:
  "length (Chapters (put_chapter slot ch as ! i)) = length (Chapters (as ! i))"
proof (cases "i = fst slot \<and> fst slot < length as")
  case True
  then show ?thesis by (simp add: put_chapter_def)
next
  case False
  then show ?thesis by (auto simp: put_chapter_def list_update_beyond)
qed

lemma distinct_without:
  assumes "distinct xs"
  shows "distinct (take k xs @ drop (Suc k) xs)"
proof -
  have "distinct (take k xs @ drop k xs)"
    using assms by simp
  then have "distinct (take k xs)" and "set (take k xs) \<inter> set (drop k xs) = {}"
    by (simp_all only: distinct_append)
  moreover have "set (drop (Suc k) xs) \<subseteq> set (drop k xs)"
    by (rule set_drop_subset_set_drop) simp
  moreover have "distinct (drop (Suc k) xs)"
    using assms by (rule distinct_drop)
  ultimately show ?thesis
    by (auto simp: distinct_append)
qed

lemma attempt_step_tasks:
  assumes "attempt_step r c = Inr r'"
  shows "set (tasks r') \<subseteq> set (tasks r)"
    and "distinct (tasks r) \<Longrightarrow> distinct (tasks r')"
    and "length (arcs r') = length (arcs r)"
    and "length (Chapters (arcs r' ! i)) = length (Chapters (arcs r ! i))"
proof -
  obtain fetch k where c: "c = (fetch, k)" by (cases c)
  show "set (tasks r') \<subseteq> set (tasks r)"
    using attempt_step_invariant(3) [OF assms] .
  show "distinct (tasks r')" if "distinct (tasks r)"
  proof -
    have "distinct (take k (tasks r) @ drop (Suc k) (tasks r))"
      using that by (rule distinct_without)
    with that assms show ?thesis
      by (auto simp: attempt_step_def c Let_def split: if_splits attempt.splits)
  qed
  show "length (arcs r') = length (arcs r)"
    using assms by (auto simp: attempt_step_def c Let_def split: if_splits attempt.splits)
  show "length (Chapters (arcs r' ! i)) = length (Chapters (arcs r ! i))"
    using assms by (auto simp: attempt_step_def c Let_def split: if_splits attempt.splits)
qed

lemma attempts_on_gone:
  "slot \<notin> set (tasks r) \<Longrightarrow> attempts_on r schedule slot = []"
proof (induction schedule arbitrary: r)
  case Nil
  then show ?case by simp
next
  case (Cons c cs)
  show ?case
  proof (cases "attempt_step r c")
    case (Inl p)
    then show ?thesis by simp
  next
    case (Inr r')
    from attempt_step_tasks(1) [OF Inr] Cons.prems have "slot \<notin> set (tasks r')" by blast
    then have "attempts_on r' cs slot = []" by (rule Cons.IH)
    moreover have "\<not> (snd c < length (tasks r) \<and> tasks r ! snd c = slot)"
      using Cons.prems by auto
    ultimately show ?thesis using Inr by simp
  qed
qed

lemma nth_not_in_without:
  assumes "distinct xs" and "k < length xs"
  shows "xs ! k \<notin> set (take k xs @ drop (Suc k) xs)"
proof -
  have "xs = take k xs @ xs ! k # drop (Suc k) xs"
    using assms(2) by (rule id_take_nth_drop)
  then have "distinct (take k xs @ xs ! k # drop (Suc k) xs)"
    using assms(1) by simp
  then show ?thesis
    by (simp only: distinct_append distinct.simps set_append) auto
qed

lemma attempt_step_chapter:
  assumes step: "attempt_step r (fetch, k) = Inr r1"
    and d: "distinct (tasks r)"
    and v: "\<forall>sl \<in> set (tasks r). fst sl < length (arcs r) \<and> snd sl < length (Chapters (arcs r ! fst sl))"
    and gone: "slot \<notin> set (tasks r1) \<Longrightarrow> rest = []"
  shows "replay ((if k < length (tasks r) \<and> tasks r ! k = slot then [fetch] else []) @ rest)
           (chapter_at (arcs r) slot) =
         replay rest (chapter_at (arcs r1) slot)"
proof (cases "k < length (tasks r)")
  case False
  with step show ?thesis by (simp add: attempt_step_def)
next
  case True
  define sl0 where "sl0 = tasks r ! k"
  have mem: "sl0 \<in> set (tasks r)" using True by (simp add: sl0_def)
  with v have range: "fst sl0 < length (arcs r)" "snd sl0 < length (Chapters (arcs r ! fst sl0))"
    by auto
  show ?thesis
  proof (cases "Parse fetch (chapter_at (arcs r) sl0)")
    case (FatalAbort p)
    with step True show ?thesis by (simp add: attempt_step_def sl0_def)
  next
    case (Rescheduled ch')
    with step True have r1: "arcs r1 = put_chapter sl0 ch' (arcs r)"
      by (auto simp: attempt_step_def sl0_def)
    show ?thesis
    proof (cases "slot = sl0")
      case True
      with Rescheduled r1 range \<open>k < length (tasks r)\<close> show ?thesis
        by (simp add: sl0_def [symmetric] chapter_at_put_same)
    next
      case False
      with r1 \<open>k < length (tasks r)\<close> show ?thesis
        by (simp add: sl0_def [symmetric] chapter_at_put_other)
    qed
  next
    case (Completed ch')
    with step True have r1: "arcs r1 = put_chapter sl0 ch' (arcs r)"
      and t1: "tasks r1 = take k (tasks r) @ drop (Suc k) (tasks r)"
      by (auto simp: attempt_step_def sl0_def)
    show ?thesis
    proof (cases "slot = sl0")
      case True
      have "sl0 \<notin> set (tasks r1)"
        unfolding t1 sl0_def using d \<open>k < length (tasks r)\<close> by (rule nth_not_in_without)
      with gone True have "rest = []" by simp
      with True Completed r1 range \<open>k < length (tasks r)\<close> show ?thesis
        by (simp add: sl0_def [symmetric] chapter_at_put_same)
    next
      case False
      with r1 \<open>k < length (tasks r)\<close> show ?thesis
        by (simp add: sl0_def [symmetric] chapter_at_put_other)
    qed
  qed
qed

lemma chapter_after_schedule:
  assumes "run_schedule r schedule = Inr r'"
    and "distinct (tasks r)"
    and "\<forall>sl \<in> set (tasks r). fst sl < length (arcs r) \<and> snd sl < length (Chapters (arcs r ! fst sl))"
  shows "chapter_at (arcs r') slot = replay (attempts_on r schedule slot) (chapter_at (arcs r) slot)"
  using assms
proof (induction schedule arbitrary: r)
  case Nil
  then show ?case by simp
next
  case (Cons c cs)
  obtain fetch k where c: "c = (fetch, k)" by (cases c)
  from Cons.prems(1) obtain r1 where step: "attempt_step r c = Inr r1"
    and run: "run_schedule r1 cs = Inr r'"
    by (auto split: sum.splits)
  have d1: "distinct (tasks r1)"
    using attempt_step_tasks(2) [OF step Cons.prems(2)] .
  have v1: "\<forall>sl \<in> set (tasks r1). fst sl < length (arcs r1) \<and> snd sl < length (Chapters (arcs r1 ! fst sl))"
    using Cons.prems(3) attempt_step_tasks(1,3,4) [OF step] by auto
  have "chapter_at (arcs r') slot = replay (attempts_on r1 cs slot) (chapter_at (arcs r1) slot)"
    using run d1 v1 by (rule Cons.IH)
  also have "\<dots> = replay ((if k < length (tasks r) \<and> tasks r ! k = slot then [fetch] else [])
                          @ attempts_on r1 cs slot) (chapter_at (arcs r) slot)"
    using step Cons.prems(2,3) unfolding c
    by (rule attempt_step_chapter [symmetric]) (rule attempts_on_gone)
  finally show ?case
    using step by (simp add: c)
qed

lemma distinct_slots_from: "distinct (slots_from k as)"
proof (induction as arbitrary: k)
  case Nil
  then show ?case by (simp add: slots_from_def)
next
  case (Cons a as)
  have "distinct (map (\<lambda>j. (k, j)) [0..<length (Chapters a)])"
    by (simp add: distinct_map inj_on_def)
  moreover have "set (map (\<lambda>j. (k, j)) [0..<length (Chapters a)]) \<inter> set (slots_from (Suc k) as) = {}"
    using slots_from_in_range [of _ _ "Suc k" as] by fastforce
  ultimately show ?case
    using Cons.IH [of "Suc k"] by (simp only: slots_from_Cons distinct_append)
qed

lemma launch_ready:
  "distinct (tasks (launch skeleton))"
  "\<forall>sl \<in> set (tasks (launch skeleton)).
     fst sl < length (arcs (launch skeleton)) \<and>
     snd sl < length (Chapters (arcs (launch skeleton) ! fst sl))"
  using slots_from_in_range [of _ _ 0 skeleton]
  by (auto simp: launch_def distinct_slots_from)

lemma arcs_after_schedule:
  assumes run: "run_schedule (launch skeleton) schedule = Inr r"
  shows "arcs r =
           map (\<lambda>(i, arc). arc\<lparr>Chapters :=
                  map (\<lambda>(j, ch). replay (attempts_on (launch skeleton) schedule (i, j)) ch)
                    (enumerate 0 (Chapters arc))\<rparr>)
             (enumerate 0 skeleton)"
proof (rule nth_equalityI)
  have o: "outline (arcs r) = outline skeleton"
    using run_schedule_invariant [OF run] by (simp add: launch_def)
  show len: "length (arcs r) =
      length (map (\<lambda>(i, arc). arc\<lparr>Chapters :=
                  map (\<lambda>(j, ch). replay (attempts_on (launch skeleton) schedule (i, j)) ch)
                    (enumerate 0 (Chapters arc))\<rparr>)
             (enumerate 0 skeleton))"
    using outline_lengths(1) [OF o] by simp
  fix i
  assume "i < length (arcs r)"
  then have i: "i < length skeleton"
    using outline_lengths(1) [OF o] by simp
  have "outline (arcs r) ! i = outline skeleton ! i"
    using o by simp
  then have same: "Identifier (arcs r ! i) = Identifier (skeleton ! i)"
    "Arc.Title (arcs r ! i) = Arc.Title (skeleton ! i)"
    using i outline_lengths(1) [OF o] by (simp_all add: outline_def)
  have clen: "length (Chapters (arcs r ! i)) = length (Chapters (skeleton ! i))"
    using outline_lengths(2) [OF o i] .
  have "Chapters (arcs r ! i) =
          map (\<lambda>(j, ch). replay (attempts_on (launch skeleton) schedule (i, j)) ch)
            (enumerate 0 (Chapters (skeleton ! i)))"
  proof (rule nth_equalityI)
    show "length (Chapters (arcs r ! i)) =
        length (map (\<lambda>(j, ch). replay (attempts_on (launch skeleton) schedule (i, j)) ch)
            (enumerate 0 (Chapters (skeleton ! i))))"
      using clen by simp
    fix j
    assume "j < length (Chapters (arcs r ! i))"
    then have j: "j < length (Chapters (skeleton ! i))"
      using clen by simp
    have "chapter_at (arcs r) (i, j) =
            replay (attempts_on (launch skeleton) schedule (i, j))
              (chapter_at (arcs (launch skeleton)) (i, j))"
      using run launch_ready by (rule chapter_after_schedule)
    then show "Chapters (arcs r ! i) ! j =
        map (\<lambda>(j, ch). replay (attempts_on (launch skeleton) schedule (i, j)) ch)
            (enumerate 0 (Chapters (skeleton ! i))) ! j"
      using j by (simp add: chapter_at_def launch_def nth_enumerate_eq)
  qed
  then show "arcs r ! i =
      map (\<lambda>(i, arc). arc\<lparr>Chapters :=
                  map (\<lambda>(j, ch). replay (attempts_on (launch skeleton) schedule (i, j)) ch)
                    (enumerate 0 (Chapters arc))\<rparr>)
             (enumerate 0 skeleton) ! i"
    using i same by (simp add: nth_enumerate_eq)
qed

lemma write_chapter_text:
  "write_chapter flags f ch =
     f @ [CHR 0x0A, CHR 0x0A] @ ''## '' @ Chapter.Title ch @ [CHR 0x0A, CHR 0x0A] @
     (if with_tags flags then ''**Tags:** '' @ Join (Tags ch) '', '' @ ''  '' else []) @
     (if with_date flags then ''**Date:** '' @ DatePosted ch @ ''  '' else []) @
     (if with_link flags then ''**Link:** '' @ Url ch @ ''  '' else []) @
     [CHR 0x0A, CHR 0x0A] @ concat (map (\<lambda>p. p @ [CHR 0x0A, CHR 0x0A]) (Paragraphs ch))"
  by (simp add: write_chapter_def Let_def foldl_append_acc)

lemma write_document_text:
  "write_document flags as =
     ''# Worm'' @ [CHR 0x0A, CHR 0x0A] @ ''By Wildbow'' @ [CHR 0x0A, CHR 0x0A] @
     ''Website: https://parahumans.wordpress.com/'' @
     concat (map (\<lambda>arc. [CHR 0x0A, CHR 0x0A] @ Arc.Title arc @
                   concat (map (\<lambda>ch.
                     [CHR 0x0A, CHR 0x0A] @ ''## '' @ Chapter.Title ch @ [CHR 0x0A, CHR 0x0A] @
                     (if with_tags flags then ''**Tags:** '' @ Join (Tags ch) '', '' @ ''  '' else []) @
                     (if with_date flags then ''**Date:** '' @ DatePosted ch @ ''  '' else []) @
                     (if with_link flags then ''**Link:** '' @ Url ch @ ''  '' else []) @
                     [CHR 0x0A, CHR 0x0A] @ concat (map (\<lambda>p. p @ [CHR 0x0A, CHR 0x0A]) (Paragraphs ch)))
                     (Chapters arc))) as)"
proof -
  have "write_chapter flags [] = (\<lambda>ch.
                     [CHR 0x0A, CHR 0x0A] @ ''## '' @ Chapter.Title ch @ [CHR 0x0A, CHR 0x0A] @
                     (if with_tags flags then ''**Tags:** '' @ Join (Tags ch) '', '' @ ''  '' else []) @
                     (if with_date flags then ''**Date:** '' @ DatePosted ch @ ''  '' else []) @
                     (if with_link flags then ''**Link:** '' @ Url ch @ ''  '' else []) @
                     [CHR 0x0A, CHR 0x0A] @ concat (map (\<lambda>p. p @ [CHR 0x0A, CHR 0x0A]) (Paragraphs ch)))"
    by (rule ext) (simp add: write_chapter_text)
  moreover have "write_document flags [] =
      ''# Worm'' @ [CHR 0x0A, CHR 0x0A] @ ''By Wildbow'' @ [CHR 0x0A, CHR 0x0A] @
      ''Website: https://parahumans.wordpress.com/''"
    by (simp add: write_document_def MainSite_def)
  ultimately show ?thesis
    by (subst write_document_sections) (simp only: PageBreak_def append_assoc)
qed


text \<open>
  Claim C2. A schedule says which live task makes the next call of \<open>Parse\<close> and what the
  network answers; every order of completion, with any number of retries in between, is
  such a schedule. Whatever the schedule, the arcs of the resulting state are the arcs of
  the skeleton, in the skeleton's order, and in each the chapter of every slot is what
  the calls of that slot's own task have made of the skeleton's chapter there, whatever
  the other tasks did and whenever they finished. So the identifiers, the titles and the
  addresses are the skeleton's; the values received and the live tasks add up to the
  number of chapters, so that the main flow goes on exactly when no task is left; every
  live task still points at a chapter of the arcs; and the document is the cover, then
  for each arc of the skeleton in order its title, then for each of its slots in order
  the heading, the annotations and the paragraphs of the chapter that the slot's own
  task has produced.
\<close>

theorem order_independent_of_completion:
  "run_schedule (launch skeleton) schedule = Inr r \<Longrightarrow>
   arcs r =
     map (\<lambda>(i, arc). arc\<lparr>Chapters :=
            map (\<lambda>(j, ch). replay (attempts_on (launch skeleton) schedule (i, j)) ch)
              (enumerate 0 (Chapters arc))\<rparr>)
       (enumerate 0 skeleton) \<and>
   outline (arcs r) = outline skeleton \<and>
   received r + length (tasks r) = sum_list (map (\<lambda>arc. length (Chapters arc)) skeleton) \<and>
   (\<forall>(i, j) \<in> set (tasks r). i < length (arcs r) \<and> j < length (Chapters (arcs r ! i))) \<and>
   write_document flags (arcs r) =
     ''# Worm'' @ [CHR 0x0A, CHR 0x0A] @ ''By Wildbow'' @ [CHR 0x0A, CHR 0x0A] @
     ''Website: https://parahumans.wordpress.com/'' @
     concat (map (\<lambda>(i, arc). [CHR 0x0A, CHR 0x0A] @ Arc.Title arc @
        concat (map (\<lambda>(j, ch).
            let own = replay (attempts_on (launch skeleton) schedule (i, j)) ch in
            [CHR 0x0A, CHR 0x0A] @ ''## '' @ Chapter.Title own @ [CHR 0x0A, CHR 0x0A] @
            (if with_tags flags then ''**Tags:** '' @ Join (Tags own) '', '' @ ''  '' else []) @
            (if with_date flags then ''**Date:** '' @ DatePosted own @ ''  '' else []) @
            (if with_link flags then ''**Link:** '' @ Url own @ ''  '' else []) @
            [CHR 0x0A, CHR 0x0A] @ concat (map (\<lambda>p. p @ [CHR 0x0A, CHR 0x0A]) (Paragraphs own)))
          (enumerate 0 (Chapters arc)))) (enumerate 0 skeleton))"
proof -
  assume run: "run_schedule (launch skeleton) schedule = Inr r"
  note a = arcs_after_schedule [OF run]
  have doc: "write_document flags (arcs r) =
     ''# Worm'' @ [CHR 0x0A, CHR 0x0A] @ ''By Wildbow'' @ [CHR 0x0A, CHR 0x0A] @
     ''Website: https://parahumans.wordpress.com/'' @
     concat (map (\<lambda>(i, arc). [CHR 0x0A, CHR 0x0A] @ Arc.Title arc @
        concat (map (\<lambda>(j, ch).
            let own = replay (attempts_on (launch skeleton) schedule (i, j)) ch in
            [CHR 0x0A, CHR 0x0A] @ ''## '' @ Chapter.Title own @ [CHR 0x0A, CHR 0x0A] @
            (if with_tags flags then ''**Tags:** '' @ Join (Tags own) '', '' @ ''  '' else []) @
            (if with_date flags then ''**Date:** '' @ DatePosted own @ ''  '' else []) @
            (if with_link flags then ''**Link:** '' @ Url own @ ''  '' else []) @
            [CHR 0x0A, CHR 0x0A] @ concat (map (\<lambda>p. p @ [CHR 0x0A, CHR 0x0A]) (Paragraphs own)))
          (enumerate 0 (Chapters arc)))) (enumerate 0 skeleton))"
    unfolding write_document_text [of flags "arcs r"]
    by (subst a) (simp add: o_def case_prod_unfold Let_def)
  show ?thesis
    using a doc run_schedule_invariant [of "launch skeleton" schedule r]
          live_tasks_in_range [of skeleton schedule r] run
    by (simp add: launch_def length_slots_from)
qed

theorem order_independent_of_completion_witness:
  "run_schedule
     (launch [\<lparr>Identifier = ''1'', Title = ''Arc 1'',
          Chapters = [Chapter_zero\<lparr>Chapter.Title := ''1.1'', Url := ''w.org/1-1''\<rparr>,
                      Chapter_zero\<lparr>Chapter.Title := ''1.2'', Url := ''w.org/1-2''\<rparr>]\<rparr>,
       \<lparr>Identifier = ''E'', Title = ''Epilogue'',
          Chapters = [Chapter_zero\<lparr>Chapter.Title := ''E.1'', Url := ''http://w.org/e-1''\<rparr>]\<rparr>])
     [(\<lambda>u. None, 2),
      (\<lambda>u. Some \<lparr>entry_title = u, tag_texts = [], entry_date = [], entry_content = []\<rparr>, 0),
      (\<lambda>u. Some \<lparr>entry_title = u, tag_texts = [], entry_date = [], entry_content = []\<rparr>, 0),
      (\<lambda>u. Some \<lparr>entry_title = u, tag_texts = [], entry_date = [], entry_content = []\<rparr>, 0)] =
   Inr \<lparr>arcs =
         [\<lparr>Identifier = ''1'', Title = ''Arc 1'',
            Chapters = [Chapter_zero\<lparr>Chapter.Title := ''https://w.org/1-1'', Url := ''https://w.org/1-1''\<rparr>,
                        Chapter_zero\<lparr>Chapter.Title := ''https://w.org/1-2'', Url := ''https://w.org/1-2''\<rparr>]\<rparr>,
          \<lparr>Identifier = ''E'', Title = ''Epilogue'',
            Chapters = [Chapter_zero\<lparr>Chapter.Title := ''http://w.org/e-1'', Url := ''http://w.org/e-1'',
                          Retries := 1\<rparr>]\<rparr>],
        tasks = [], received = 3\<rparr> \<and>
   run_schedule
     (launch [\<lparr>Identifier = ''1'', Title = ''Arc 1'',
          Chapters = [Chapter_zero\<lparr>Chapter.Title := ''1.1'', Url := ''w.org/1-1''\<rparr>,
                      Chapter_zero\<lparr>Chapter.Title := ''1.2'', Url := ''w.org/1-2''\<rparr>]\<rparr>,
       \<lparr>Identifier = ''E'', Title = ''Epilogue'',
          Chapters = [Chapter_zero\<lparr>Chapter.Title := ''E.1'', Url := ''http://w.org/e-1''\<rparr>]\<rparr>])
     [(\<lambda>u. Some \<lparr>entry_title = u, tag_texts = [], entry_date = [], entry_content = []\<rparr>, 1),
      (\<lambda>u. None, 1),
      (\<lambda>u. Some \<lparr>entry_title = u, tag_texts = [], entry_date = [], entry_content = []\<rparr>, 1),
      (\<lambda>u. Some \<lparr>entry_title = u, tag_texts = [], entry_date = [], entry_content = []\<rparr>, 0)] =
   Inr \<lparr>arcs =
         [\<lparr>Identifier = ''1'', Title = ''Arc 1'',
            Chapters = [Chapter_zero\<lparr>Chapter.Title := ''https://w.org/1-1'', Url := ''https://w.org/1-1''\<rparr>,
                        Chapter_zero\<lparr>Chapter.Title := ''https://w.org/1-2'', Url := ''https://w.org/1-2''\<rparr>]\<rparr>,
          \<lparr>Identifier = ''E'', Title = ''Epilogue'',
            Chapters = [Chapter_zero\<lparr>Chapter.Title := ''http://w.org/e-1'', Url := ''http://w.org/e-1'',
                          Retries := 1\<rparr>]\<rparr>],
        tasks = [], received = 3\<rparr> \<and>
   replay
     (attempts_on
        (launch [\<lparr>Identifier = ''1'', Title = ''Arc 1'',
          Chapters = [Chapter_zero\<lparr>Chapter.Title := ''1.1'', Url := ''w.org/1-1''\<rparr>,
                      Chapter_zero\<lparr>Chapter.Title := ''1.2'', Url := ''w.org/1-2''\<rparr>]\<rparr>,
       \<lparr>Identifier = ''E'', Title = ''Epilogue'',
          Chapters = [Chapter_zero\<lparr>Chapter.Title := ''E.1'', Url := ''http://w.org/e-1''\<rparr>]\<rparr>])
        [(\<lambda>u. Some \<lparr>entry_title = u, tag_texts = [], entry_date = [], entry_content = []\<rparr>, 1),
         (\<lambda>u. None, 1),
         (\<lambda>u. Some \<lparr>entry_title = u, tag_texts = [], entry_date = [], entry_content = []\<rparr>, 1),
         (\<lambda>u. Some \<lparr>entry_title = u, tag_texts = [], entry_date = [], entry_content = []\<rparr>, 0)]
        (1, 0))
     (Chapter_zero\<lparr>Chapter.Title := ''E.1'', Url := ''http://w.org/e-1''\<rparr>) =
   Chapter_zero\<lparr>Chapter.Title := ''http://w.org/e-1'', Url := ''http://w.org/e-1'', Retries := 1\<rparr>"
proof -
  let ?skel = "[\<lparr>Identifier = ''1'', Title = ''Arc 1'',
          Chapters = [Chapter_zero\<lparr>Chapter.Title := ''1.1'', Url := ''w.org/1-1''\<rparr>,
                      Chapter_zero\<lparr>Chapter.Title := ''1.2'', Url := ''w.org/1-2''\<rparr>]\<rparr>,
       \<lparr>Identifier = ''E'', Title = ''Epilogue'',
          Chapters = [Chapter_zero\<lparr>Chapter.Title := ''E.1'', Url := ''http://w.org/e-1''\<rparr>]\<rparr>]"
  let ?net = "\<lambda>u. Some \<lparr>entry_title = u, tag_texts = [], entry_date = [], entry_content = []\<rparr>"
  let ?A = "[(\<lambda>u. None, 2), (?net, 0), (?net, 0), (?net, 0)]"
  let ?B = "[(?net, 1), (\<lambda>u. None, 1), (?net, 1), (?net, 0)]"
  let ?r = "\<lparr>arcs =
         [\<lparr>Identifier = ''1'', Title = ''Arc 1'',
            Chapters = [Chapter_zero\<lparr>Chapter.Title := ''https://w.org/1-1'', Url := ''https://w.org/1-1''\<rparr>,
                        Chapter_zero\<lparr>Chapter.Title := ''https://w.org/1-2'', Url := ''https://w.org/1-2''\<rparr>]\<rparr>,
          \<lparr>Identifier = ''E'', Title = ''Epilogue'',
            Chapters = [Chapter_zero\<lparr>Chapter.Title := ''http://w.org/e-1'', Url := ''http://w.org/e-1'',
                          Retries := 1\<rparr>]\<rparr>],
        tasks = [], received = 3\<rparr>"
  have A: "run_schedule (launch ?skel) ?A = Inr ?r"
    by (simp add: launch_def slots_from_def attempt_step_def Parse_def put_chapter_def
        chapter_at_def with_scheme_def Chapter_zero_def upt_rec)
  have B: "run_schedule (launch ?skel) ?B = Inr ?r"
    by (simp add: launch_def slots_from_def attempt_step_def Parse_def put_chapter_def
        chapter_at_def with_scheme_def Chapter_zero_def upt_rec)
  have "arcs ?r =
     map (\<lambda>(i, arc). arc\<lparr>Chapters :=
            map (\<lambda>(j, ch). replay (attempts_on (launch ?skel) ?B (i, j)) ch)
              (enumerate 0 (Chapters arc))\<rparr>)
       (enumerate 0 ?skel)"
    using order_independent_of_completion [OF B] by blast
  then have "replay (attempts_on (launch ?skel) ?B (1, 0))
      (Chapter_zero\<lparr>Chapter.Title := ''E.1'', Url := ''http://w.org/e-1''\<rparr>) =
    Chapter_zero\<lparr>Chapter.Title := ''http://w.org/e-1'', Url := ''http://w.org/e-1'', Retries := 1\<rparr>"
    by (simp add: enumerate_eq_zip upt_rec)
  with A B order_independent_of_completion [OF A] show ?thesis
    by simp
qed

subsection \<open>The three kinds of paragraph\<close>

lemma Replace_space:
  assumes "old \<noteq> []" and "hd old \<noteq> CHR '' ''"
  shows "Replace (CHR '' '' # s) old new = CHR '' '' # Replace s old new"
proof -
  from assms have np: "\<not> prefix old (CHR '' '' # s)"
    by (cases old) auto
  show ?thesis
    by (subst Replace_Cons [OF assms(1)]) (simp only: np if_False)
qed

lemma Format_indent: "Format (''    '' @ st) = ''    '' @ Format st"
  by (simp add: Format_def Replace_space)

lemma Format_separator: "Format ''----------'' = ''----------''"
  by (simp add: Format_def Replace_Cons)

text \<open>
  Claim C6. A content element without a link adds exactly one paragraph, decided in this
  order: with an attribute \<open>padding-left\<close> of value \<open>30px\<close>, four spaces followed by
  the formatted inner markup; otherwise, with an attribute \<open>text-align\<close> of value
  \<open>center\<close>, the ten dashes of the separator and nothing of the inner markup; otherwise
  the formatted inner markup.
\<close>

theorem content_element_classes:
  "link_nodes s = 0 \<Longrightarrow>
   content_step ps s =
     ps @ [if map_of (attributes s) ''padding-left'' = Some ''30px'' then ''    '' @ Format (inner_html s)
           else if map_of (attributes s) ''text-align'' = Some ''center'' then ''----------''
           else Format (inner_html s)]"
  by (simp add: content_step_def paragraph_source_def Format_indent Format_separator
      del: append.simps)

theorem content_element_classes_witness:
  "link_nodes \<lparr>link_nodes = 0, inner_html = ''<em>a</em>'',
       attributes = [(''text-align'', ''center''), (''padding-left'', ''30px'')]\<rparr> = 0 \<and>
   content_step []
     \<lparr>link_nodes = 0, inner_html = ''<em>a</em>'',
        attributes = [(''text-align'', ''center''), (''padding-left'', ''30px'')]\<rparr> = [''    *a*''] \<and>
   content_step []
     \<lparr>link_nodes = 0, inner_html = ''<em>a</em>'',
        attributes = [(''text-align'', ''center''), (''padding-left'', ''3px'')]\<rparr> = [''----------''] \<and>
   content_step []
     \<lparr>link_nodes = 0, inner_html = ''<em>a</em>'',
        attributes = [(''text-align'', ''left'')]\<rparr> = [''*a*'']"
  using content_element_classes
    [where s = "\<lparr>link_nodes = 0, inner_html = ''<em>a</em>'',
       attributes = [(''text-align'', ''center''), (''padding-left'', ''30px'')]\<rparr>" and ps = "[]"]
    content_element_classes
    [where s = "\<lparr>link_nodes = 0, inner_html = ''<em>a</em>'',
       attributes = [(''text-align'', ''center''), (''padding-left'', ''3px'')]\<rparr>" and ps = "[]"]
    content_element_classes
    [where s = "\<lparr>link_nodes = 0, inner_html = ''<em>a</em>'',
       attributes = [(''text-align'', ''left'')]\<rparr>" and ps = "[]"]
  by (simp add: Format_def Replace_Cons)

subsection \<open>What \<open>Replace\<close> leaves and what it removes\<close>

lemma Replace_match:
  "old \<noteq> [] \<Longrightarrow> prefix old (c # s) \<Longrightarrow>
   Replace (c # s) old new = new @ Replace (drop (length old) (c # s)) old new"
  by (subst Replace_Cons) simp_all

lemma Replace_skip:
  "old \<noteq> [] \<Longrightarrow> \<not> prefix old (c # s) \<Longrightarrow> Replace (c # s) old new = c # Replace s old new"
  by (subst Replace_Cons) simp_all

lemma Replace_absent:
  "old \<noteq> [] \<Longrightarrow> \<not> sublist old s \<Longrightarrow> Replace s old new = s"
proof (induction s)
  case Nil
  then show ?case by simp
next
  case (Cons c s)
  from Cons.prems(2) have "\<not> prefix old (c # s)" and "\<not> sublist old s"
    by (simp_all add: sublist_Cons_right)
  with Cons show ?case by (simp add: Replace_skip)
qed

lemma set_Replace:
  "old \<noteq> [] \<Longrightarrow> set (Replace s old new) \<subseteq> set s \<union> set new"
proof (induction s old new rule: Replace.induct)
  case (1 s old new)
  show ?case
  proof (cases s)
    case Nil
    with "1.prems" show ?thesis by simp
  next
    case (Cons c t)
    show ?thesis
    proof (cases "prefix old s")
      case True
      have "set (Replace (drop (length old) s) old new) \<subseteq> set (drop (length old) s) \<union> set new"
        using "1.IH"(1) "1.prems" Cons True by simp
      moreover have "set (drop (length old) s) \<subseteq> set s"
        by (rule set_drop_subset)
      ultimately show ?thesis
        using True Cons "1.prems" by (auto simp: Replace_match)
    next
      case False
      have "set (Replace (tl s) old new) \<subseteq> set (tl s) \<union> set new"
        using "1.IH"(2) "1.prems" Cons False by simp
      then show ?thesis
        using False Cons "1.prems" by (auto simp: Replace_skip)
    qed
  qed
qed

lemma length_Replace:
  "old \<noteq> [] \<Longrightarrow> length new \<le> length old \<Longrightarrow> length (Replace s old new) \<le> length s"
proof (induction s old new rule: Replace.induct)
  case (1 s old new)
  show ?case
  proof (cases s)
    case Nil
    with "1.prems" show ?thesis by simp
  next
    case (Cons c t)
    show ?thesis
    proof (cases "prefix old s")
      case True
      have "length (Replace (drop (length old) s) old new) \<le> length (drop (length old) s)"
        using "1.IH"(1) "1.prems" Cons True by simp
      moreover have "length old \<le> length s"
        using True by (rule prefix_length_le)
      ultimately show ?thesis
        using True Cons "1.prems" by (simp add: Replace_match)
    next
      case False
      have "length (Replace (tl s) old new) \<le> length (tl s)"
        using "1.IH"(2) "1.prems" Cons False by simp
      then show ?thesis
        using False Cons "1.prems" by (simp add: Replace_skip)
    qed
  qed
qed

lemma length_Replace_less:
  "old \<noteq> [] \<Longrightarrow> length new < length old \<Longrightarrow> sublist old s \<Longrightarrow>
   length (Replace s old new) < length s"
proof (induction s)
  case Nil
  then show ?case by simp
next
  case (Cons c s)
  show ?case
  proof (cases "prefix old (c # s)")
    case True
    have "length (Replace (drop (length old) (c # s)) old new) \<le> length (drop (length old) (c # s))"
      using Cons.prems by (intro length_Replace) simp_all
    moreover have "length old \<le> length (c # s)"
      using True by (rule prefix_length_le)
    ultimately show ?thesis
      using True Cons.prems by (simp add: Replace_match)
  next
    case False
    with Cons.prems(3) have "sublist old s"
      by (simp add: sublist_Cons_right)
    with Cons False show ?thesis
      by (simp add: Replace_skip)
  qed
qed

lemma prefix_Replace:
  "old \<noteq> [] \<Longrightarrow> new \<noteq> [] \<Longrightarrow> set q \<inter> set new = {} \<Longrightarrow>
   prefix q (Replace s old new) \<Longrightarrow> prefix q s"
proof (induction s old new arbitrary: q rule: Replace.induct)
  case (1 s old new)
  show ?case
  proof (cases s)
    case Nil
    with "1.prems" show ?thesis by simp
  next
    case (Cons c t)
    show ?thesis
    proof (cases "prefix old s")
      case True
      then have "prefix q (new @ Replace (drop (length old) s) old new)"
        using "1.prems" Cons by (simp add: Replace_match)
      moreover obtain n ns where "new = n # ns"
        using "1.prems"(2) by (cases new) auto
      ultimately have "q = []"
        using "1.prems"(3) by (cases q) auto
      then show ?thesis by simp
    next
      case False
      then have p: "prefix q (c # Replace t old new)"
        using "1.prems" Cons by (simp add: Replace_skip)
      show ?thesis
      proof (cases q)
        case Nil
        then show ?thesis by simp
      next
        case (Cons d q')
        with p have "d = c" and "prefix q' (Replace t old new)" by simp_all
        moreover have "set q' \<inter> set new = {}"
          using "1.prems"(3) Cons by auto
        ultimately have "prefix q' t"
          using "1.IH"(2) [of q'] "1.prems"(1,2) False \<open>s = c # t\<close> by simp
        with \<open>d = c\<close> Cons \<open>s = c # t\<close> show ?thesis by simp
      qed
    qed
  qed
qed

lemma sublist_behind:
  "p \<noteq> [] \<Longrightarrow> set p \<inter> set ys = {} \<Longrightarrow> sublist p (ys @ x) \<Longrightarrow> sublist p x"
proof (induction ys)
  case Nil
  then show ?case by simp
next
  case (Cons y ys)
  from Cons.prems(1,2) have "\<not> prefix p (y # ys @ x)"
    by (cases p) auto
  with Cons.prems(3) have "sublist p (ys @ x)"
    by (simp add: sublist_Cons_right)
  moreover have "set p \<inter> set ys = {}"
    using Cons.prems(2) by auto
  ultimately show ?case
    using Cons.IH Cons.prems(1) by simp
qed

lemma sublist_Replace:
  "old \<noteq> [] \<Longrightarrow> new \<noteq> [] \<Longrightarrow> set p \<inter> set new = {} \<Longrightarrow>
   sublist p (Replace s old new) \<Longrightarrow> sublist p s"
proof (induction s old new rule: Replace.induct)
  case (1 s old new)
  show ?case
  proof (cases "p = []")
    case True
    then show ?thesis by simp
  next
    case pne: False
    show ?thesis
    proof (cases s)
      case Nil
      with "1.prems" show ?thesis by simp
    next
      case (Cons c t)
      show ?thesis
      proof (cases "prefix old s")
        case True
        then have "sublist p (new @ Replace (drop (length old) s) old new)"
          using "1.prems" Cons by (simp add: Replace_match)
        then have "sublist p (Replace (drop (length old) s) old new)"
          using pne "1.prems"(3) by (rule sublist_behind [rotated 2])
        then have "sublist p (drop (length old) s)"
          using "1.IH"(1) "1.prems"(1-3) True Cons by simp
        moreover have "sublist (drop (length old) s) s"
          by simp
        ultimately show ?thesis
          by (rule sublist_order.order_trans)
      next
        case False
        then have "sublist p (c # Replace t old new)"
          using "1.prems" Cons by (simp add: Replace_skip)
        then consider "prefix p (c # Replace t old new)" | "sublist p (Replace t old new)"
          by (auto simp: sublist_Cons_right)
        then show ?thesis
        proof cases
          case 1
          then have "prefix p (Replace s old new)"
            using False Cons "1.prems"(1) by (simp add: Replace_skip)
          then have "prefix p s"
            by (rule prefix_Replace [OF "1.prems"(1-3)])
          then show ?thesis by simp
        next
          case 2
          then have "sublist p t"
            using "1.IH"(2) "1.prems"(1-3) False Cons by simp
          then show ?thesis
            using Cons by (simp add: sublist_Cons_right)
        qed
      qed
    qed
  qed
qed

lemma Replace_removes:
  "old \<noteq> [] \<Longrightarrow> new \<noteq> [] \<Longrightarrow> set old \<inter> set new = {} \<Longrightarrow>
   \<not> sublist old (Replace s old new)"
proof (induction s old new rule: Replace.induct)
  case (1 s old new)
  show ?case
  proof (cases s)
    case Nil
    with "1.prems" show ?thesis by simp
  next
    case (Cons c t)
    show ?thesis
    proof (cases "prefix old s")
      case True
      have "\<not> sublist old (Replace (drop (length old) s) old new)"
        using "1.IH"(1) "1.prems" True Cons by simp
      then have "\<not> sublist old (new @ Replace (drop (length old) s) old new)"
        using sublist_behind [OF "1.prems"(1) "1.prems"(3)] by blast
      then show ?thesis
        using True Cons "1.prems"(1) by (simp add: Replace_match)
    next
      case False
      have a: "\<not> sublist old (Replace t old new)"
        using "1.IH"(2) "1.prems" False Cons by simp
      have "\<not> prefix old (Replace s old new)"
        using prefix_Replace [OF "1.prems"(1,2,3)] False by blast
      then have "\<not> prefix old (c # Replace t old new)"
        using False Cons "1.prems"(1) by (simp add: Replace_skip)
      with a have "\<not> sublist old (c # Replace t old new)"
        by (simp add: sublist_Cons_right)
      then show ?thesis
        using False Cons "1.prems"(1) by (simp add: Replace_skip)
    qed
  qed
qed

lemma Replace_delete_char: "Replace s [c] [] = filter (\<lambda>x. x \<noteq> c) s"
proof (induction s)
  case Nil
  then show ?case by simp
next
  case (Cons d s)
  show ?case
  proof (cases "d = c")
    case True
    then show ?thesis using Cons by (simp add: Replace_match)
  next
    case False
    then show ?thesis using Cons by (simp add: Replace_skip)
  qed
qed

lemma foldl_Replace_absent:
  "\<forall>(old, new) \<in> set ps. old \<noteq> [] \<and> \<not> sublist old s \<Longrightarrow>
   foldl (\<lambda>s (old, new). Replace s old new) s ps = s"
  by (induction ps) (auto simp: Replace_absent)

lemma length_foldl_Replace:
  "\<forall>(old, new) \<in> set ps. old \<noteq> [] \<and> length new < length old \<Longrightarrow>
   length (foldl (\<lambda>s (old, new). Replace s old new) s ps) \<le> length s"
proof (induction ps arbitrary: s)
  case Nil
  then show ?case by simp
next
  case (Cons a ps)
  obtain old new where a: "a = (old, new)" by (cases a)
  have "length (foldl (\<lambda>s (old, new). Replace s old new) (Replace s old new) ps)
          \<le> length (Replace s old new)"
    using Cons.prems by (intro Cons.IH) simp
  also have "\<dots> \<le> length s"
    using Cons.prems a by (intro length_Replace) auto
  finally show ?case by (simp add: a)
qed

lemma foldl_Replace_fixed:
  "\<forall>(old, new) \<in> set ps. old \<noteq> [] \<and> length new < length old \<Longrightarrow>
   foldl (\<lambda>s (old, new). Replace s old new) s ps = s \<Longrightarrow>
   \<forall>(old, new) \<in> set ps. \<not> sublist old s"
proof (induction ps)
  case Nil
  then show ?case by simp
next
  case (Cons a ps)
  obtain old new where a: "a = (old, new)" by (cases a)
  let ?F = "foldl (\<lambda>s (old, new). Replace s old new)"
  have rest: "\<forall>(old, new) \<in> set ps. old \<noteq> [] \<and> length new < length old"
    using Cons.prems(1) by simp
  have on: "old \<noteq> []" "length new < length old"
    using Cons.prems(1) a by auto
  have fixed: "?F (Replace s old new) ps = s"
    using Cons.prems(2) a by simp
  have absent: "\<not> sublist old s"
  proof
    assume "sublist old s"
    then have "length (Replace s old new) < length s"
      using on by (intro length_Replace_less)
    moreover have "length (?F (Replace s old new) ps) \<le> length (Replace s old new)"
      using rest by (rule length_foldl_Replace)
    ultimately show False using fixed by simp
  qed
  then have "Replace s old new = s"
    using on(1) by (simp add: Replace_absent)
  with fixed have "?F s ps = s" by simp
  with Cons.IH rest have "\<forall>(old, new) \<in> set ps. \<not> sublist old s" by blast
  with absent a show ?case by simp
qed

lemma Format_foldl:
  "Format s =
     foldl (\<lambda>s (old, new). Replace s old new) s
       [(''<em>'', ''*''), (''</em>'', ''*''), (''<i>'', ''*''), (''</i>'', ''*''),
        (''<strong>'', ''**''), (''</strong>'', ''**''), (''<b>'', ''**''), (''</b>'', ''**''),
        ([CHR 0x0A], []), (''.  '', ''. '')]"
  by (simp add: Format_def)

subsection \<open>Passes one after the other\<close>

lemma sublist_foldl_Replace:
  "\<forall>(old, new) \<in> set ps. old \<noteq> [] \<and> new \<noteq> [] \<and> set p \<inter> set new = {} \<Longrightarrow>
   sublist p (foldl (\<lambda>s (old, new). Replace s old new) s ps) \<Longrightarrow> sublist p s"
proof (induction ps arbitrary: s)
  case Nil
  then show ?case by simp
next
  case (Cons a ps)
  obtain old new where a: "a = (old, new)" by (cases a)
  have "sublist p (Replace s old new)"
  proof (rule Cons.IH)
    show "\<forall>(old, new) \<in> set ps. old \<noteq> [] \<and> new \<noteq> [] \<and> set p \<inter> set new = {}"
      using Cons.prems(1) by simp
    show "sublist p (foldl (\<lambda>s (old, new). Replace s old new) (Replace s old new) ps)"
      using Cons.prems(2) a by simp
  qed
  moreover have "old \<noteq> []" "new \<noteq> []" "set p \<inter> set new = {}"
    using Cons.prems(1) a by auto
  ultimately show ?case
    using sublist_Replace [of old new p s] by blast
qed

lemma foldl_Replace_removes:
  assumes "\<forall>(old, new) \<in> set ps. old \<noteq> [] \<and> new \<noteq> [] \<and> set new \<subseteq> N \<and> set old \<inter> N = {}"
  shows "\<forall>(old, new) \<in> set ps. \<not> sublist old (foldl (\<lambda>s (old, new). Replace s old new) s ps)"
  using assms
proof (induction ps arbitrary: s)
  case Nil
  then show ?case by simp
next
  case (Cons a ps)
  obtain old new where a: "a = (old, new)" by (cases a)
  let ?F = "foldl (\<lambda>s (old, new). Replace s old new)"
  have rest: "\<forall>(old, new) \<in> set ps. old \<noteq> [] \<and> new \<noteq> [] \<and> set new \<subseteq> N \<and> set old \<inter> N = {}"
    using Cons.prems by simp
  have on: "old \<noteq> []" "new \<noteq> []" "set new \<subseteq> N" "set old \<inter> N = {}"
    using Cons.prems a by auto
  have "\<not> sublist old (Replace s old new)"
    using on by (intro Replace_removes) auto
  moreover have "\<forall>(old', new') \<in> set ps. old' \<noteq> [] \<and> new' \<noteq> [] \<and> set old \<inter> set new' = {}"
    using rest on(4) by fastforce
  ultimately have head: "\<not> sublist old (?F (Replace s old new) ps)"
    using sublist_foldl_Replace by blast
  note tail = Cons.IH [OF rest, of "Replace s old new"]
  from head tail show ?case by (simp add: a)
qed

lemma set_foldl_Replace:
  "\<forall>(old, new) \<in> set ps. old \<noteq> [] \<and> set new \<subseteq> N \<Longrightarrow>
   set (foldl (\<lambda>s (old, new). Replace s old new) s ps) \<subseteq> set s \<union> N"
proof (induction ps arbitrary: s)
  case Nil
  then show ?case by simp
next
  case (Cons a ps)
  obtain old new where a: "a = (old, new)" by (cases a)
  have "set (foldl (\<lambda>s (old, new). Replace s old new) (Replace s old new) ps)
          \<subseteq> set (Replace s old new) \<union> N"
    using Cons.prems by (intro Cons.IH) simp
  moreover have "set (Replace s old new) \<subseteq> set s \<union> set new"
    using Cons.prems a by (intro set_Replace) simp
  moreover have "set new \<subseteq> N"
    using Cons.prems a by simp
  ultimately show ?case by (auto simp: a)
qed

lemma collapse_head:
  assumes "Replace u ''.  '' ''. '' = CHR '' '' # w"
  shows "\<exists>v. u = CHR '' '' # v \<and> w = Replace v ''.  '' ''. ''"
proof (cases u)
  case Nil
  with assms show ?thesis by simp
next
  case (Cons c v)
  show ?thesis
  proof (cases "prefix ''.  '' (c # v)")
    case True
    with assms Cons show ?thesis by (simp add: Replace_match)
  next
    case False
    with assms Cons show ?thesis by (simp add: Replace_skip)
  qed
qed

lemma collapse_two_spaces:
  assumes "prefix ''  '' (Replace v ''.  '' ''. '')"
  shows "prefix ''  '' v"
proof -
  from assms obtain w where w: "Replace v ''.  '' ''. '' = CHR '' '' # CHR '' '' # w"
    by (auto simp: prefix_def)
  then obtain v1 where v1: "v = CHR '' '' # v1" "CHR '' '' # w = Replace v1 ''.  '' ''. ''"
    using collapse_head by blast
  then obtain v2 where "v1 = CHR '' '' # v2"
    using collapse_head [of v1 w] by auto
  with v1 show ?thesis by simp
qed

lemma collapse_leaves_none:
  "\<not> sublist ''.   '' u \<Longrightarrow> \<not> sublist ''.  '' (Replace u ''.  '' ''. '')"
proof (induction u rule: length_induct)
  case (1 u)
  show ?case
  proof (cases u)
    case Nil
    then show ?thesis by simp
  next
    case (Cons c v)
    show ?thesis
    proof (cases "prefix ''.  '' u")
      case True
      then obtain d where d: "u = ''.  '' @ d"
        by (auto simp: prefix_def)
      then have R: "Replace u ''.  '' ''. '' = ''. '' @ Replace d ''.  '' ''. ''"
        by (simp add: Replace_match)
      have "sublist d u" unfolding d by (rule sublist_append_leftI)
      then have "\<not> sublist ''.   '' d"
        using "1.prems" sublist_order.order_trans by blast
      moreover have "length d < length u" using d by simp
      ultimately have IH: "\<not> sublist ''.  '' (Replace d ''.  '' ''. '')"
        using "1.IH" by blast
      have "\<not> prefix '' '' (Replace d ''.  '' ''. '')"
      proof
        assume "prefix '' '' (Replace d ''.  '' ''. '')"
        then obtain w where "Replace d ''.  '' ''. '' = CHR '' '' # w"
          by (auto simp: prefix_def)
        then obtain e where "d = CHR '' '' # e"
          using collapse_head by blast
        with d have "u = ''.   '' @ e" by simp
        then have "sublist ''.   '' u" by (metis sublist_append_rightI)
        with "1.prems" show False by simp
      qed
      with IH show ?thesis
        by (simp add: R sublist_Cons_right)
    next
      case False
      then have R: "Replace u ''.  '' ''. '' = c # Replace v ''.  '' ''. ''"
        using Cons by (simp add: Replace_skip)
      have "\<not> sublist ''.   '' v"
        using "1.prems" Cons by (simp add: sublist_Cons_right)
      then have IH: "\<not> sublist ''.  '' (Replace v ''.  '' ''. '')"
        using "1.IH" Cons by simp
      have "\<not> prefix ''.  '' (c # Replace v ''.  '' ''. '')"
      proof
        assume "prefix ''.  '' (c # Replace v ''.  '' ''. '')"
        then have c: "c = CHR ''.''" and "prefix ''  '' (Replace v ''.  '' ''. '')"
          by auto
        then have "prefix ''  '' v"
          using collapse_two_spaces by blast
        with c have "prefix ''.  '' (c # v)"
          by simp
        with False Cons show False by simp
      qed
      with IH show ?thesis
        by (simp add: R sublist_Cons_right)
    qed
  qed
qed

subsection \<open>Formatting twice\<close>

lemma Format_stages:
  "Format s =
     Replace (Replace
       (foldl (\<lambda>s (old, new). Replace s old new) s
          [(''<em>'', ''*''), (''</em>'', ''*''), (''<i>'', ''*''), (''</i>'', ''*''),
           (''<strong>'', ''**''), (''</strong>'', ''**''), (''<b>'', ''**''), (''</b>'', ''**'')])
       [CHR 0x0A] []) ''.  '' ''. ''"
  by (simp add: Format_def)

lemma sublist_single: "sublist [c] s \<longleftrightarrow> c \<in> set s"
  by (induction s) (auto simp: sublist_Cons_right)

lemma Format_no_newline: "CHR 0x0A \<notin> set (Format s)"
proof -
  let ?x = "foldl (\<lambda>s (old, new). Replace s old new) s
          [(''<em>'', ''*''), (''</em>'', ''*''), (''<i>'', ''*''), (''</i>'', ''*''),
           (''<strong>'', ''**''), (''</strong>'', ''**''), (''<b>'', ''**''), (''</b>'', ''**'')]"
  have "set (Format s) \<subseteq> set (Replace ?x [CHR 0x0A] []) \<union> set ''. ''"
    unfolding Format_stages by (rule set_Replace) simp
  then show ?thesis
    by (auto simp: Replace_delete_char)
qed

lemma Format_fixed_iff:
  "Format t = t \<longleftrightarrow>
     (\<forall>old \<in> set [''<em>'', ''</em>'', ''<i>'', ''</i>'', ''<strong>'', ''</strong>'', ''<b>'', ''</b>'',
                    [CHR 0x0A], ''.  '']. \<not> sublist old t)"
proof
  assume "Format t = t"
  then have "foldl (\<lambda>s (old, new). Replace s old new) t
       [(''<em>'', ''*''), (''</em>'', ''*''), (''<i>'', ''*''), (''</i>'', ''*''),
        (''<strong>'', ''**''), (''</strong>'', ''**''), (''<b>'', ''**''), (''</b>'', ''**''),
        ([CHR 0x0A], []), (''.  '', ''. '')] = t"
    by (simp only: Format_foldl)
  then have "\<forall>(old, new) \<in> set
       [(''<em>'', ''*''), (''</em>'', ''*''), (''<i>'', ''*''), (''</i>'', ''*''),
        (''<strong>'', ''**''), (''</strong>'', ''**''), (''<b>'', ''**''), (''</b>'', ''**''),
        ([CHR 0x0A], []), (''.  '', ''. '')]. \<not> sublist old t"
    by (rule foldl_Replace_fixed [rotated]) simp
  then show "\<forall>old \<in> set [''<em>'', ''</em>'', ''<i>'', ''</i>'', ''<strong>'', ''</strong>'', ''<b>'', ''</b>'',
                    [CHR 0x0A], ''.  '']. \<not> sublist old t"
    by simp
next
  assume "\<forall>old \<in> set [''<em>'', ''</em>'', ''<i>'', ''</i>'', ''<strong>'', ''</strong>'', ''<b>'', ''</b>'',
                    [CHR 0x0A], ''.  '']. \<not> sublist old t"
  then have "\<forall>(old, new) \<in> set
       [(''<em>'', ''*''), (''</em>'', ''*''), (''<i>'', ''*''), (''</i>'', ''*''),
        (''<strong>'', ''**''), (''</strong>'', ''**''), (''<b>'', ''**''), (''</b>'', ''**''),
        ([CHR 0x0A], []), (''.  '', ''. '')]. old \<noteq> [] \<and> \<not> sublist old t"
    by simp
  then show "Format t = t"
    unfolding Format_foldl by (rule foldl_Replace_absent)
qed

lemma Format_clean:
  assumes nl: "CHR 0x0A \<notin> set s" and dots: "\<not> sublist ''.   '' s"
  shows "\<forall>old \<in> set [''<em>'', ''</em>'', ''<i>'', ''</i>'', ''<strong>'', ''</strong>'', ''<b>'', ''</b>'',
                    ''.  '']. \<not> sublist old (Format s)"
proof -
  let ?tags = "[(''<em>'', ''*''), (''</em>'', ''*''), (''<i>'', ''*''), (''</i>'', ''*''),
     (''<strong>'', ''**''), (''</strong>'', ''**''), (''<b>'', ''**''), (''</b>'', ''**'')]"
  define x where "x = foldl (\<lambda>s (old, new). Replace s old new) s ?tags"
  have "set x \<subseteq> set s \<union> {CHR ''*''}"
    unfolding x_def by (rule set_foldl_Replace) simp
  with nl have "CHR 0x0A \<notin> set x" by auto
  then have "Replace x [CHR 0x0A] [] = x"
    by (simp add: Replace_absent sublist_single)
  then have F: "Format s = Replace x ''.  '' ''. ''"
    by (simp only: Format_stages x_def)
  have "\<forall>(old, new) \<in> set ?tags. \<not> sublist old x"
    unfolding x_def by (rule foldl_Replace_removes [where N = "{CHR ''*''}"]) simp
  then have tags: "\<forall>old \<in> set [''<em>'', ''</em>'', ''<i>'', ''</i>'', ''<strong>'', ''</strong>'',
      ''<b>'', ''</b>'']. \<not> sublist old x"
    by simp
  have keep: "\<not> sublist old (Replace x ''.  '' ''. '')"
    if "\<not> sublist old x" and "set old \<inter> set ''. '' = {}" for old
    using that sublist_Replace [of "''.  ''" "''. ''" old x] by blast
  have "\<forall>(old, new) \<in> set ?tags. old \<noteq> [] \<and> new \<noteq> [] \<and> set ''.   '' \<inter> set new = {}"
    by simp
  then have "sublist ''.   '' x \<Longrightarrow> sublist ''.   '' s"
    unfolding x_def by (rule sublist_foldl_Replace)
  with dots have "\<not> sublist ''.   '' x" by blast
  then have "\<not> sublist ''.  '' (Format s)"
    unfolding F by (rule collapse_leaves_none)
  moreover have "\<forall>old \<in> set [''<em>'', ''</em>'', ''<i>'', ''</i>'', ''<strong>'', ''</strong>'',
      ''<b>'', ''</b>'']. \<not> sublist old (Format s)"
    unfolding F using tags by (simp add: keep)
  ultimately show ?thesis by simp
qed


text \<open>
  Claim C7, as the code has it. Formatting a formatted text changes nothing exactly when
  the formatted text has none of the eight tags and no period followed by two spaces in
  it; this is so for every input that has no newline and no period followed by three
  spaces in it.
\<close>

theorem Format_idempotent_iff:
  "(Format (Format s) = Format s \<longleftrightarrow>
      (\<forall>old \<in> set [''<em>'', ''</em>'', ''<i>'', ''</i>'', ''<strong>'', ''</strong>'', ''<b>'', ''</b>'',
                     ''.  '']. \<not> sublist old (Format s))) \<and>
   (CHR 0x0A \<notin> set s \<longrightarrow> \<not> sublist ''.   '' s \<longrightarrow> Format (Format s) = Format s)"
proof -
  have iff: "Format (Format s) = Format s \<longleftrightarrow>
      (\<forall>old \<in> set [''<em>'', ''</em>'', ''<i>'', ''</i>'', ''<strong>'', ''</strong>'', ''<b>'', ''</b>'',
                     ''.  '']. \<not> sublist old (Format s))"
    using Format_no_newline [of s] by (simp add: Format_fixed_iff sublist_single)
  moreover have "Format (Format s) = Format s"
    if "CHR 0x0A \<notin> set s" and "\<not> sublist ''.   '' s"
    using Format_clean [OF that] iff by blast
  ultimately show ?thesis by blast
qed

theorem Format_idempotent_iff_witness:
  "CHR 0x0A \<notin> set ''He <em>ran</em>.  <b>Far</b>.'' \<and>
   \<not> sublist ''.   '' ''He <em>ran</em>.  <b>Far</b>.'' \<and>
   Format ''He <em>ran</em>.  <b>Far</b>.'' = ''He *ran*. **Far**.'' \<and>
   Format (Format ''He <em>ran</em>.  <b>Far</b>.'') = Format ''He <em>ran</em>.  <b>Far</b>.''"
  using Format_idempotent_iff [of "''He <em>ran</em>.  <b>Far</b>.''"]
  by (simp add: sublist_code Format_def Replace_Cons)


text \<open>
  A period followed by three spaces loses one space in each round of formatting, so the
  second round still changes the text.
\<close>

theorem Format_twice_differs:
  "Format ''Stop.   Go'' = ''Stop.  Go'' \<and>
   Format (Format ''Stop.   Go'') = ''Stop. Go'' \<and>
   Format (Format ''Stop.   Go'') \<noteq> Format ''Stop.   Go''"
  by (simp add: Format_def Replace_Cons)

subsection \<open>The formatter and its description\<close>

lemma spec_rewrite_single:
  "old \<noteq> [] \<Longrightarrow> spec_rewrite [(old, new)] s = Replace s old new"
proof (induction s old new rule: Replace.induct)
  case (1 s old new)
  show ?case
  proof (cases s)
    case Nil
    with "1.prems" show ?thesis by simp
  next
    case (Cons c t)
    show ?thesis
    proof (cases "prefix old s")
      case True
      then show ?thesis
        using "1.IH"(1) "1.prems" Cons by (simp add: Replace_match)
    next
      case False
      then show ?thesis
        using "1.IH"(2) "1.prems" Cons by (simp add: Replace_skip)
    qed
  qed
qed

lemma foldl_Replace_skip:
  "\<forall>(old, new) \<in> set ps. old \<noteq> [] \<and> new \<noteq> [] \<and> set new \<subseteq> N \<and> set old \<inter> N = {}
                           \<and> \<not> prefix old (c # r) \<Longrightarrow>
   foldl (\<lambda>s (old, new). Replace s old new) (c # r) ps =
     c # foldl (\<lambda>s (old, new). Replace s old new) r ps"
proof (induction ps arbitrary: r)
  case Nil
  then show ?case by simp
next
  case (Cons a ps)
  obtain old new where a: "a = (old, new)" by (cases a)
  have on: "old \<noteq> []" "new \<noteq> []" "set new \<subseteq> N" "\<not> prefix old (c # r)"
    using Cons.prems a by auto
  have "\<forall>(old', new') \<in> set ps. old' \<noteq> [] \<and> new' \<noteq> [] \<and> set new' \<subseteq> N \<and> set old' \<inter> N = {}
                           \<and> \<not> prefix old' (c # Replace r old new)"
  proof (clarify, intro conjI)
    fix old' new'
    assume m: "(old', new') \<in> set ps"
    with Cons.prems have o': "old' \<noteq> []" "new' \<noteq> []" "set new' \<subseteq> N" "set old' \<inter> N = {}"
      "\<not> prefix old' (c # r)"
      by auto
    then show "old' \<noteq> []" "new' \<noteq> []" "set new' \<subseteq> N" "set old' \<inter> N = {}"
      by simp_all
    show "\<not> prefix old' (c # Replace r old new)"
    proof
      assume p: "prefix old' (c # Replace r old new)"
      from o'(1) obtain d q where q: "old' = d # q" by (cases old') auto
      with p have "d = c" and "prefix q (Replace r old new)" by simp_all
      moreover have "set q \<inter> set new = {}"
        using o'(4) on(3) q by auto
      ultimately have "prefix q r"
        using prefix_Replace [OF on(1,2)] by blast
      with \<open>d = c\<close> q o'(5) show False by simp
    qed
  qed
  then have "foldl (\<lambda>s (old, new). Replace s old new) (c # Replace r old new) ps =
     c # foldl (\<lambda>s (old, new). Replace s old new) (Replace r old new) ps"
    by (rule Cons.IH)
  then show ?case
    using on by (simp add: a Replace_skip)
qed

lemma foldl_markup_match:
  "(old, new) \<in> set spec_markup_rules \<Longrightarrow>
   foldl (\<lambda>s (old, new). Replace s old new) (old @ r) spec_markup_rules =
     new @ foldl (\<lambda>s (old, new). Replace s old new) r spec_markup_rules"
  unfolding spec_markup_rules_def
  by (auto simp: Replace_Cons)

lemma markup_rules_shape:
  "\<forall>(old, new) \<in> set spec_markup_rules.
     old \<noteq> [] \<and> new \<noteq> [] \<and> set new \<subseteq> {CHR ''*''} \<and> set old \<inter> {CHR ''*''} = {}"
  by (simp add: spec_markup_rules_def)

lemma spec_rewrite_markup:
  "spec_rewrite spec_markup_rules s =
     foldl (\<lambda>s (old, new). Replace s old new) s spec_markup_rules"
proof (induction s rule: length_induct)
  case (1 s)
  let ?T = "\<lambda>s. foldl (\<lambda>s (old, new). Replace s old new) s spec_markup_rules"
  show ?case
  proof (cases s)
    case Nil
    then show ?thesis by (simp add: spec_markup_rules_def)
  next
    case (Cons c t)
    show ?thesis
    proof (cases "find (\<lambda>(old, new). old \<noteq> [] \<and> prefix old (c # t)) spec_markup_rules")
      case None
      then have "\<forall>(old, new) \<in> set spec_markup_rules. \<not> (old \<noteq> [] \<and> prefix old (c # t))"
        by (auto simp: find_None_iff)
      with markup_rules_shape
      have "\<forall>(old, new) \<in> set spec_markup_rules.
              old \<noteq> [] \<and> new \<noteq> [] \<and> set new \<subseteq> {CHR ''*''} \<and> set old \<inter> {CHR ''*''} = {}
              \<and> \<not> prefix old (c # t)"
        by fastforce
      then have "?T (c # t) = c # ?T t"
        by (rule foldl_Replace_skip)
      moreover have "spec_rewrite spec_markup_rules t = ?T t"
        using "1.IH" Cons by simp
      ultimately show ?thesis
        using None Cons by simp
    next
      case (Some rule)
      obtain old new where rule: "rule = (old, new)" by (cases rule)
      from Some have m: "(old, new) \<in> set spec_markup_rules" and ne: "old \<noteq> []"
        and p: "prefix old (c # t)"
        by (auto simp: find_Some_iff rule) (metis nth_mem)
      define d where "d = drop (length old) (c # t)"
      from p have split: "c # t = old @ d"
        by (auto simp: prefix_def d_def)
      then have "length d < length s"
        using ne Cons by (metis length_append length_greater_0_conv less_add_same_cancel2)
      then have "spec_rewrite spec_markup_rules d = ?T d"
        using "1.IH" by simp
      moreover have "?T (c # t) = new @ ?T d"
        unfolding split using m by (rule foldl_markup_match)
      ultimately show ?thesis
        using Some Cons by (simp add: rule d_def)
    qed
  qed
qed


text \<open>
  Claim C8. On every source string \<open>Format\<close> gives what the description says, its
  rules taken in the order in which they are listed: the eight tags replaced by
  asterisks in one scan, all other characters and tags copied; the newlines dropped;
  the period with two spaces collapsed.
\<close>

theorem Format_meets_description: "Format s = Format_spec s"
proof -
  have "Format s =
          Replace (Replace (foldl (\<lambda>s (old, new). Replace s old new) s spec_markup_rules)
            [CHR 0x0A] []) ''.  '' ''. ''"
    unfolding spec_markup_rules_def by (rule Format_stages)
  also have "\<dots> = Replace (Replace (spec_rewrite spec_markup_rules s) [CHR 0x0A] []) ''.  '' ''. ''"
    by (simp only: spec_rewrite_markup)
  also have "\<dots> = Replace (filter (\<lambda>c. c \<noteq> CHR 0x0A) (spec_rewrite spec_markup_rules s)) ''.  '' ''. ''"
    by (simp only: Replace_delete_char)
  also have "\<dots> = Format_spec s"
    by (simp add: Format_spec_def spec_rewrite_single)
  finally show ?thesis .
qed

end
